theory Spec2Isabelle
  imports Complex_Main "HOL-Library.Sublist" "HOL-Library.AList"
begin

section \<open>Collaborative canvas: the server's operation log and the client's replay\<close>

text \<open>
  The development embeds \<^verbatim>\<open>server/server.js\<close> (operation log, groups, undo and redo
  stacks, the clear-all vote, the user registry) and the replay engine of
  \<^verbatim>\<open>client/canvas.js\<close>.

  Conventions of the embedding.
  \<^item> A JavaScript array is a list in the array's own order: \<^verbatim>\<open>push\<close> appends at the
    end, \<^verbatim>\<open>pop\<close> removes the last element.
  \<^item> \<^verbatim>\<open>crypto.randomUUID()\<close> is the environment's: every function that draws a UUID
    takes the drawn string as an argument.
  \<^item> Sequence numbers are JavaScript numbers. The counter equals the length of the log
    array, which cannot exceed \<open>2^32 - 1\<close> elements, so \<^verbatim>\<open>++seq\<close> never leaves the range
    where numbers are exact integers; the model uses \<open>int\<close>.
  \<^item> Coordinates and widths are JavaScript numbers that the modelled code only stores and
    passes on; they are \<open>real\<close>.
  \<^item> A user or group identity in a payload is a string or absent (\<^verbatim>\<open>undefined\<close>).
  \<^item> Messages sent to the room (\<^verbatim>\<open>emit\<close>) do not change the server's state and are
    left out.
\<close>

subsection \<open>Values and strings\<close>

datatype jsval = Undefined | Str string

text \<open>JavaScript truthiness of such a value: \<^verbatim>\<open>undefined\<close> and the empty string are falsy.\<close>

definition truthy :: "jsval \<Rightarrow> bool" where
  "truthy v = (case v of Undefined \<Rightarrow> False | Str t \<Rightarrow> t \<noteq> [])"

definition startsWith :: "string \<Rightarrow> string \<Rightarrow> bool" where
  "startsWith k t = prefix t k"

definition endsWith :: "string \<Rightarrow> string \<Rightarrow> bool" where
  "endsWith k t = suffix t k"

subsection \<open>Operations, groups, users, vote\<close>

record point =
  px :: real
  py :: real
  pt :: real

record brush =
  b_color :: string
  b_width :: real
  b_mode :: string

record payload =
  d_userId :: jsval
  d_groupId :: jsval
  d_p :: "point option"
  d_brush :: "brush option"
  d_by :: "string option"

record op =
  op_seq :: int
  op_id :: string
  op_kind :: string
  op_data :: payload
  op_tombstone :: bool

record group =
  g_kind :: string
  g_by :: jsval
  g_seqs :: "int list"
  g_tombstone :: bool

record user =
  u_id :: string
  u_color :: string

record vote_state =
  inProgress :: bool
  yes :: "string list"
  totalAtStart :: int

record server =
  seq :: int
  ops :: "op list"
  groups :: "jsval \<rightharpoonup> group"
  undoStack :: "jsval list"
  redoStack :: "jsval list"
  users :: "(string \<times> user) list"
  vote :: vote_state

definition init :: server where
  "init = \<lparr>seq = 0, ops = [], groups = Map.empty, undoStack = [], redoStack = [],
           users = [],
           vote = \<lparr>inProgress = False, yes = [], totalAtStart = 0\<rparr>\<rparr>"

definition COLORS :: "string list" where
  "COLORS = [''#f44336'', ''#3f51b5'', ''#009688'', ''#ff9800'', ''#9c27b0'',
             ''#03a9f4'', ''#8bc34a'', ''#795548'', ''#e91e63'', ''#00bcd4'']"

definition nextColor :: "nat \<Rightarrow> string" where
  "nextColor i = COLORS ! (i mod length COLORS)"

subsection \<open>The operation log\<close>

definition addOp :: "string \<Rightarrow> string \<Rightarrow> payload \<Rightarrow> server \<Rightarrow> op \<times> server" where
  "addOp uuid kind dat s =
     (let n = seq s + 1;
          opn = \<lparr>op_seq = n, op_id = uuid, op_kind = kind, op_data = dat, op_tombstone = False\<rparr>;
          s1 = s\<lparr>seq := n, ops := ops s @ [opn]\<rparr>;
          gid = d_groupId dat
      in if endsWith kind '':start'' then
           (opn, s1\<lparr>groups := (groups s1)(gid \<mapsto>
                     \<lparr>g_kind = kind, g_by = d_userId dat, g_seqs = [n], g_tombstone = False\<rparr>)\<rparr>)
         else if endsWith kind '':point'' then
           (case groups s1 gid of
              None \<Rightarrow> (opn, s1)
            | Some g \<Rightarrow> (opn, s1\<lparr>groups := (groups s1)(gid \<mapsto> g\<lparr>g_seqs := g_seqs g @ [n]\<rparr>)\<rparr>))
         else if endsWith kind '':end'' then
           (case groups s1 gid of
              None \<Rightarrow> (opn, s1)
            | Some g \<Rightarrow> (opn, s1\<lparr>groups := (groups s1)(gid \<mapsto> g\<lparr>g_seqs := g_seqs g @ [n]\<rparr>),
                                undoStack := undoStack s1 @ [gid],
                                redoStack := []\<rparr>))
         else if kind = ''system:clear_all'' then
           (opn, s1\<lparr>undoStack := [], redoStack := []\<rparr>)
         else (opn, s1))"

text \<open>
  \<^verbatim>\<open>const o = ops.find(x => x.seq === s); if (o) o.tombstone = val;\<close>:
  the first operation of the log with that sequence number is updated.
\<close>

fun setOpTombstone :: "int \<Rightarrow> bool \<Rightarrow> op list \<Rightarrow> op list" where
  "setOpTombstone n val [] = []"
| "setOpTombstone n val (x # xs) =
     (if op_seq x = n then x\<lparr>op_tombstone := val\<rparr> # xs else x # setOpTombstone n val xs)"

definition setGroupTombstone :: "jsval \<Rightarrow> bool \<Rightarrow> server \<Rightarrow> bool \<times> server" where
  "setGroupTombstone groupId val s =
     (case groups s groupId of
        None \<Rightarrow> (False, s)
      | Some g \<Rightarrow>
          (True, s\<lparr>groups := (groups s)(groupId \<mapsto> g\<lparr>g_tombstone := val\<rparr>),
                   ops := foldl (\<lambda>os n. setOpTombstone n val os) (ops s) (g_seqs g)\<rparr>))"

text \<open>
  The loops of \<^verbatim>\<open>performUndo\<close> and \<^verbatim>\<open>performRedo\<close> pop one entry per round; the result
  \<open>None\<close> is the \<^verbatim>\<open>null\<close> returned when the stack is exhausted.
\<close>

function performUndo :: "server \<Rightarrow> jsval option \<times> server" where
  "performUndo s =
     (if undoStack s = [] then (None, s)
      else
        let gid = last (undoStack s) in
        (case groups s gid of
           Some g \<Rightarrow>
             if \<not> g_tombstone g then
               (let s1 = snd (setGroupTombstone gid True s);
                    s2 = s1\<lparr>redoStack := redoStack s1 @ [gid]\<rparr>;
                    s3 = s2\<lparr>undoStack := butlast (undoStack s2)\<rparr>
                in (Some gid, s3))
             else performUndo (s\<lparr>undoStack := butlast (undoStack s)\<rparr>)
         | None \<Rightarrow> performUndo (s\<lparr>undoStack := butlast (undoStack s)\<rparr>)))"
  by pat_completeness auto
termination
  by (relation "measure (\<lambda>s. length (undoStack s))") auto

function performRedo :: "server \<Rightarrow> jsval option \<times> server" where
  "performRedo s =
     (if redoStack s = [] then (None, s)
      else
        let gid = last (redoStack s);
            s1 = s\<lparr>redoStack := butlast (redoStack s)\<rparr> in
        (case groups s1 gid of
           Some g \<Rightarrow>
             if g_tombstone g then
               (let s2 = snd (setGroupTombstone gid False s1)
                in (Some gid, s2\<lparr>undoStack := undoStack s2 @ [gid]\<rparr>))
             else performRedo s1
         | None \<Rightarrow> performRedo s1))"
  by pat_completeness auto
termination
  by (relation "measure (\<lambda>s. length (redoStack s))") auto

declare performUndo.simps [simp del]
declare performRedo.simps [simp del]

subsection \<open>The handlers of a connection\<close>

definition SYSTEM_CLEAR_DATA :: payload where
  "SYSTEM_CLEAR_DATA = \<lparr>d_userId = Undefined, d_groupId = Undefined, d_p = None,
                         d_brush = None, d_by = Some ''vote''\<rparr>"

definition finalizeClear :: "string \<Rightarrow> server \<Rightarrow> server" where
  "finalizeClear uuid s =
     (let (sys, s1) = addOp uuid ''system:clear_all'' SYSTEM_CLEAR_DATA s;
          s2 = s1\<lparr>groups := (\<lambda>k. map_option (\<lambda>g. g\<lparr>g_tombstone := True\<rparr>) (groups s1 k))\<rparr>;
          s3 = s2\<lparr>ops := map (\<lambda>x. if op_id x \<noteq> op_id sys then x\<lparr>op_tombstone := True\<rparr> else x)
                             (ops s2)\<rparr>
      in s3\<lparr>vote := (vote s3)\<lparr>inProgress := False\<rparr>\<rparr>)"

definition connection :: "string \<Rightarrow> server \<Rightarrow> server" where
  "connection sid s =
     (let usr = \<lparr>u_id = sid, u_color = nextColor (length (users s))\<rparr>
      in s\<lparr>users := AList.update sid usr (users s)\<rparr>)"

text \<open>
  \<^verbatim>\<open>client:op\<close>: \<open>ug\<close> is the UUID drawn for a missing group identity, \<open>uo\<close> the one
  drawn by \<open>addOp\<close> for the operation.
\<close>

definition mintGroupId :: "string \<Rightarrow> string \<Rightarrow> payload \<Rightarrow> payload" where
  "mintGroupId ug kind dat =
     (if (startsWith kind ''stroke:'' \<or> startsWith kind ''erase:'') \<and> \<not> truthy (d_groupId dat)
      then dat\<lparr>d_groupId := Str ug\<rparr> else dat)"

definition client_op :: "string \<Rightarrow> string \<Rightarrow> string \<Rightarrow> payload \<Rightarrow> server \<Rightarrow> op \<times> server" where
  "client_op ug uo kind dat s = addOp uo kind (mintGroupId ug kind dat) s"

definition client_undo :: "server \<Rightarrow> server" where
  "client_undo s = snd (performUndo s)"

definition client_redo :: "server \<Rightarrow> server" where
  "client_redo s = snd (performRedo s)"

text \<open>\<^verbatim>\<open>if (vote.yes.size >= vote.totalAtStart) finalizeClear();\<close>\<close>

definition checkQuorum :: "string \<Rightarrow> server \<Rightarrow> server" where
  "checkQuorum uuid s =
     (if int (length (yes (vote s))) \<ge> totalAtStart (vote s) then finalizeClear uuid s else s)"

definition clear_all_request :: "string \<Rightarrow> string \<Rightarrow> server \<Rightarrow> server" where
  "clear_all_request uuid sid s =
     (if inProgress (vote s) then s
      else checkQuorum uuid
             (s\<lparr>vote := \<lparr>inProgress = True, yes = [sid],
                         totalAtStart = int (length (users s))\<rparr>\<rparr>))"

text \<open>\<^verbatim>\<open>Set.add\<close>: a member already present is not added again.\<close>

definition set_add :: "'a \<Rightarrow> 'a list \<Rightarrow> 'a list" where
  "set_add a xs = (if a \<in> set xs then xs else xs @ [a])"

definition clear_all_vote :: "string \<Rightarrow> string \<Rightarrow> bool \<Rightarrow> server \<Rightarrow> server" where
  "clear_all_vote uuid sid y s =
     (if \<not> inProgress (vote s) then s
      else checkQuorum uuid
             (if y then s\<lparr>vote := (vote s)\<lparr>yes := set_add sid (yes (vote s))\<rparr>\<rparr> else s))"

definition disconnect :: "string \<Rightarrow> string \<Rightarrow> server \<Rightarrow> server" where
  "disconnect uuid sid s =
     (let s1 = s\<lparr>users := AList.delete sid (users s)\<rparr>
      in if inProgress (vote s1) then
           checkQuorum uuid
             (s1\<lparr>vote := (vote s1)\<lparr>totalAtStart := max (totalAtStart (vote s1) - 1) 0\<rparr>\<rparr>)
         else s1)"

text \<open>
  One event per handler invocation, carrying the message and the UUIDs the handler may
  draw while it runs.
\<close>

datatype event =
    Connection string
  | ClientOp string string string payload
  | ClientUndo
  | ClientRedo
  | ClearAllRequest string string
  | ClearAllVote string string bool
  | Disconnect string string

fun step :: "event \<Rightarrow> server \<Rightarrow> server" where
  "step (Connection sid) s = connection sid s"
| "step (ClientOp ug uo kind dat) s = snd (client_op ug uo kind dat s)"
| "step ClientUndo s = client_undo s"
| "step ClientRedo s = client_redo s"
| "step (ClearAllRequest uuid sid) s = clear_all_request uuid sid s"
| "step (ClearAllVote uuid sid y) s = clear_all_vote uuid sid y s"
| "step (Disconnect uuid sid) s = disconnect uuid sid s"

fun run :: "server \<Rightarrow> event list \<Rightarrow> server" where
  "run s [] = s"
| "run s (e # es) = run (step e s) es"

subsection \<open>The client's replay engine\<close>

text \<open>
  The raster backend is external. A drawing surface is represented by the sequence of
  line segments stroked on it since it was last cleared, each with the context settings
  \<^verbatim>\<open>drawSegment\<close> chose for it (\<^verbatim>\<open>save\<close> and \<^verbatim>\<open>restore\<close> keep the segments
  independent of each other; line cap and join are the same constant for all of them).
  Two surfaces of the same size with the same sequence show the same pixels.
\<close>

record segment =
  globalCompositeOperation :: string
  strokeStyle :: string
  lineWidth :: real
  moveTo :: point
  lineTo :: point

type_synonym surface = "segment list"

definition drawSegment ::
  "surface \<Rightarrow> point option \<Rightarrow> point option \<Rightarrow> real \<Rightarrow> string \<Rightarrow> string \<Rightarrow> surface" where
  "drawSegment g p0 p1 width color mode =
     (case p0 of
        None \<Rightarrow> g
      | Some a \<Rightarrow>
          (case p1 of
             None \<Rightarrow> g
           | Some b \<Rightarrow>
               g @ [\<lparr>globalCompositeOperation =
                        (if mode = ''eraser'' then ''destination-out'' else ''source-over''),
                      strokeStyle = (if mode = ''eraser'' then ''rgba(0,0,0,1)'' else color),
                      lineWidth = width, moveTo = a, lineTo = b\<rparr>]))"

text \<open>
  \<open>offscreen\<close> is the off-screen canvas every caller passes to \<^verbatim>\<open>applyOpToContext\<close>;
  \<open>canvas\<close> is the visible one, which \<^verbatim>\<open>blit\<close> overwrites with a copy of it (remote
  cursors are page elements, not pixels).
\<close>

record client =
  opLog :: "op list"
  lastSeg :: "jsval \<rightharpoonup> point"
  currBrush :: "jsval \<rightharpoonup> brush"
  offscreen :: surface
  canvas :: surface

definition defaultBrush :: "string \<Rightarrow> brush" where
  "defaultBrush k =
     \<lparr>b_color = ''#222'', b_width = 4,
      b_mode = (if startsWith k ''erase'' then ''eraser'' else ''brush'')\<rparr>"

definition applyOpToContext :: "op \<Rightarrow> client \<Rightarrow> client" where
  "applyOpToContext x c =
     (let d = op_data x; uid = d_userId d; k = op_kind x
      in if \<not> truthy uid then c
         else if endsWith k '':start'' then
           (let mode = (if startsWith k ''erase'' then ''eraser'' else ''brush'');
                b = (case d_brush d of Some b \<Rightarrow> b | None \<Rightarrow> defaultBrush k)
            in c\<lparr>lastSeg := (lastSeg c)(uid := d_p d),
                 currBrush := (currBrush c)(uid \<mapsto>
                    \<lparr>b_color = b_color b, b_width = b_width b, b_mode = mode\<rparr>)\<rparr>)
         else if endsWith k '':point'' then
           (let p0 = lastSeg c uid;
                p1 = d_p d;
                br = (case currBrush c uid of Some b \<Rightarrow> b | None \<Rightarrow> defaultBrush k)
            in c\<lparr>offscreen := drawSegment (offscreen c) p0 p1 (b_width br) (b_color br) (b_mode br),
                 lastSeg := (lastSeg c)(uid := p1)\<rparr>)
         else if endsWith k '':end'' then
           c\<lparr>lastSeg := (lastSeg c)(uid := None), currBrush := (currBrush c)(uid := None)\<rparr>
         else c)"

definition blit :: "client \<Rightarrow> client" where
  "blit c = c\<lparr>canvas := offscreen c\<rparr>"

definition fullReplay :: "client \<Rightarrow> client" where
  "fullReplay c =
     blit (foldl (\<lambda>c' x. if \<not> op_tombstone x then applyOpToContext x c' else c')
                 (c\<lparr>offscreen := [], lastSeg := Map.empty, currBrush := Map.empty\<rparr>)
                 (opLog c))"

definition setOpLog :: "op list \<Rightarrow> client \<Rightarrow> client" where
  "setOpLog newLog c = fullReplay (c\<lparr>opLog := newLog\<rparr>)"

definition applyOp :: "op \<Rightarrow> client \<Rightarrow> client" where
  "applyOp x c =
     (let c1 = c\<lparr>opLog := opLog c @ [x]\<rparr>
      in if op_tombstone x \<or> op_kind x = ''system:clear_all'' \<or> endsWith (op_kind x) '':end''
         then fullReplay c1
         else blit (applyOpToContext x c1))"

text \<open>The \<^verbatim>\<open>server:op\<close> handler of the client, run on the operations received in turn.\<close>

definition received :: "op list \<Rightarrow> client \<Rightarrow> client" where
  "received xs c = foldl (\<lambda>c' x. applyOp x c') c xs"

definition newClient :: client where
  "newClient = \<lparr>opLog = [], lastSeg = Map.empty, currBrush = Map.empty,
                offscreen = [], canvas = []\<rparr>"

text \<open>
  The pointer handlers of \<^verbatim>\<open>initPointerHandlers\<close>, which preview the local user's stroke.
  Their state is the four local variables of that function; \<^verbatim>\<open>null\<close> in \<open>currentGroup\<close>
  is written \<open>Undefined\<close> (it is only read while a stroke is being drawn, when it holds a
  string). A pointer event carries its type, its button and the position \<^verbatim>\<open>pointerPos\<close>
  computes for it. \<^verbatim>\<open>cryptoRandomId()\<close> and \<^verbatim>\<open>getMyId()\<close> are arguments; what
  \<^verbatim>\<open>emitFn\<close> sends to the server is left out. \<^verbatim>\<open>down\<close> and \<^verbatim>\<open>up\<close> pass their local
  operation to \<^verbatim>\<open>applyOp\<close>, which logs it; \<^verbatim>\<open>move\<close> draws its operation with
  \<^verbatim>\<open>applyOpToContext\<close> and \<^verbatim>\<open>blit\<close> and does not log it.
\<close>

record pointer_state =
  localBrush :: brush
  drawing :: bool
  lastLocal :: "point option"
  currentGroup :: jsval

record pointer_event =
  pointerType :: string
  button :: int
  pos :: point

definition initPointerHandlers :: "brush \<Rightarrow> pointer_state" where
  "initPointerHandlers b =
     \<lparr>localBrush = b, drawing = False, lastLocal = None, currentGroup = Undefined\<rparr>"

definition down ::
  "string \<Rightarrow> jsval \<Rightarrow> pointer_event \<Rightarrow> pointer_state \<times> client \<Rightarrow> pointer_state \<times> client" where
  "down gid myId e hc =
     (let (h, c) = hc
      in if pointerType e = ''mouse'' \<and> button e \<noteq> 0 then (h, c)
         else
           (let h1 = h\<lparr>drawing := True, currentGroup := Str gid, lastLocal := Some (pos e)\<rparr>
            in (h1, applyOp
                      \<lparr>op_seq = - 1, op_id = ''local'', op_kind = ''stroke:start'',
                       op_data = \<lparr>d_userId = myId, d_groupId = currentGroup h1,
                                  d_p = lastLocal h1, d_brush = Some (localBrush h1),
                                  d_by = None\<rparr>,
                       op_tombstone = False\<rparr> c)))"

definition move ::
  "jsval \<Rightarrow> pointer_event \<Rightarrow> pointer_state \<times> client \<Rightarrow> pointer_state \<times> client" where
  "move myId e hc =
     (let (h, c) = hc
      in if \<not> drawing h then (h, c)
         else
           (let x = \<lparr>op_seq = - 1, op_id = ''localpoint'', op_kind = ''stroke:point'',
                     op_data = \<lparr>d_userId = myId, d_groupId = currentGroup h,
                                d_p = Some (pos e), d_brush = None, d_by = None\<rparr>,
                     op_tombstone = False\<rparr>
            in (h\<lparr>lastLocal := Some (pos e)\<rparr>, blit (applyOpToContext x c))))"

definition up :: "jsval \<Rightarrow> pointer_state \<times> client \<Rightarrow> pointer_state \<times> client" where
  "up myId hc =
     (let (h, c) = hc
      in if \<not> drawing h then (h, c)
         else
           (h\<lparr>drawing := False, currentGroup := Undefined\<rparr>,
            applyOp
              \<lparr>op_seq = - 1, op_id = ''localend'', op_kind = ''stroke:end'',
               op_data = \<lparr>d_userId = myId, d_groupId = currentGroup h, d_p = None,
                          d_brush = None, d_by = None\<rparr>,
               op_tombstone = False\<rparr> c))"

subsection \<open>Properties of states and runs\<close>

text \<open>Sequence numbers in the log increase strictly and stay below the counter.\<close>

definition log_inv :: "server \<Rightarrow> bool" where
  "log_inv s = (sorted_wrt (<) (map op_seq (ops s)) \<and> (\<forall>x \<in> set (ops s). op_seq x \<le> seq s))"

text \<open>A handler leaves the log's sequence numbers alone or appends the next one.\<close>

definition seq_step :: "server \<Rightarrow> server \<Rightarrow> bool" where
  "seq_step s s' =
     ((map op_seq (ops s') = map op_seq (ops s) \<and> seq s' = seq s) \<or>
      (map op_seq (ops s') = map op_seq (ops s) @ [seq s + 1] \<and> seq s' = seq s + 1))"

text \<open>Member lists hold sequence numbers already assigned, and no two groups share one.\<close>

definition groups_inv :: "server \<Rightarrow> bool" where
  "groups_inv s =
     ((\<forall>gid g. groups s gid = Some g \<longrightarrow> (\<forall>n \<in> set (g_seqs g). n \<le> seq s)) \<and>
      (\<forall>gid gid' g g' n. gid \<noteq> gid' \<longrightarrow> groups s gid = Some g \<longrightarrow> groups s gid' = Some g' \<longrightarrow>
          n \<in> set (g_seqs g) \<longrightarrow> n \<notin> set (g_seqs g')))"

text \<open>
  The flag of every group and the flag of each of its members stand in the relation \<open>R\<close>.
\<close>

definition members_related :: "(bool \<Rightarrow> bool \<Rightarrow> bool) \<Rightarrow> server \<Rightarrow> bool" where
  "members_related R s =
     (\<forall>gid g x. groups s gid = Some g \<longrightarrow> x \<in> set (ops s) \<longrightarrow>
        op_seq x \<in> set (g_seqs g) \<longrightarrow> R (g_tombstone g) (op_tombstone x))"

definition state_inv :: "(bool \<Rightarrow> bool \<Rightarrow> bool) \<Rightarrow> server \<Rightarrow> bool" where
  "state_inv R s = (log_inv s \<and> groups_inv s \<and> members_related R s)"

text \<open>A group that is not tombstoned has no tombstoned member.\<close>

definition live_members :: "server \<Rightarrow> bool" where
  "live_members s = members_related (\<lambda>gt ot. \<not> gt \<longrightarrow> \<not> ot) s"

text \<open>Every group's flag equals the flag of each of its members.\<close>

definition tombstones_agree :: "server \<Rightarrow> bool" where
  "tombstones_agree s =
     (\<forall>gid g x. groups s gid = Some g \<longrightarrow> x \<in> set (ops s) \<longrightarrow>
        op_seq x \<in> set (g_seqs g) \<longrightarrow> op_tombstone x = g_tombstone g)"

text \<open>A drawn UUID is not the identity of an operation of the log.\<close>

definition fresh :: "string \<Rightarrow> server \<Rightarrow> bool" where
  "fresh uuid s = (uuid \<notin> set (map op_id (ops s)))"

text \<open>
  A point or end operation is not appended to a group that is tombstoned at that moment
  (a start creates its group; other kinds touch no group).
\<close>

definition live_target :: "string \<Rightarrow> payload \<Rightarrow> server \<Rightarrow> bool" where
  "live_target kind dat s =
     (if endsWith kind '':start'' then True
      else if endsWith kind '':point'' \<or> endsWith kind '':end'' then
        (case groups s (d_groupId dat) of None \<Rightarrow> True | Some g \<Rightarrow> \<not> g_tombstone g)
      else True)"

text \<open>
  The events of an admissible run: the identity drawn for a clear-all marker is unused, and a
  point or end operation finds its group, if any, not tombstoned.
\<close>

fun admissible :: "event \<Rightarrow> server \<Rightarrow> bool" where
  "admissible (ClientOp ug uo kind dat) s = live_target kind (mintGroupId ug kind dat) s"
| "admissible (ClearAllRequest uuid sid) s = fresh uuid s"
| "admissible (ClearAllVote uuid sid y) s = fresh uuid s"
| "admissible (Disconnect uuid sid) s = fresh uuid s"
| "admissible (Connection sid) s = True"
| "admissible ClientUndo s = True"
| "admissible ClientRedo s = True"

fun admissible_run :: "server \<Rightarrow> event list \<Rightarrow> bool" where
  "admissible_run s [] = True"
| "admissible_run s (e # es) = (admissible e s \<and> admissible_run (step e s) es)"


text \<open>A payload with a user and a group identity, for concrete inputs.\<close>

definition sample_data :: "jsval \<Rightarrow> jsval \<Rightarrow> payload" where
  "sample_data uid gid =
     \<lparr>d_userId = uid, d_groupId = gid, d_p = None, d_brush = None, d_by = None\<rparr>"

text \<open>An operation of a user at a position, with no brush, for concrete inputs.\<close>

definition sample_op :: "string \<Rightarrow> string \<Rightarrow> real \<Rightarrow> real \<Rightarrow> op" where
  "sample_op kind uid a b =
     \<lparr>op_seq = 0, op_id = ''p'', op_kind = kind,
      op_data = \<lparr>d_userId = Str uid, d_groupId = Undefined,
                 d_p = Some \<lparr>px = a, py = b, pt = 0\<rparr>, d_brush = None, d_by = None\<rparr>,
      op_tombstone = False\<rparr>"

text \<open>
  Concrete inputs. The brush \<^verbatim>\<open>main.js\<close> passes to the pointer handlers; a primary mouse
  event at a position; the state of a client that holds another user's start, after the
  local user has pressed the button and moved the pointer once.
\<close>

definition mainBrush :: brush where
  "mainBrush = \<lparr>b_color = ''#222222'', b_width = 4, b_mode = ''brush''\<rparr>"

definition mouse_at :: "real \<Rightarrow> real \<Rightarrow> pointer_event" where
  "mouse_at a b = \<lparr>pointerType = ''mouse'', button = 0, pos = \<lparr>px = a, py = b, pt = 0\<rparr>\<rparr>"

definition previewing :: client where
  "previewing =
     snd (move (Str ''a'') (mouse_at 5 2)
           (down ''g1'' (Str ''a'') (mouse_at 1 7)
             (initPointerHandlers mainBrush,
              fullReplay (newClient\<lparr>opLog := [sample_op ''stroke:start'' ''b'' 0 0]\<rparr>))))"

text \<open>
  A run in which a clear-all is finalized while a stroke is being drawn: two users are
  connected, the first starts a stroke, the second requests the clear-all, the first votes
  yes and then sends the next point and the end of the stroke.
\<close>

definition clear_mid_stroke :: "event list" where
  "clear_mid_stroke =
     [Connection ''a'', Connection ''b'',
      ClientOp ''g'' ''o1'' ''stroke:start'' (sample_data (Str ''a'') (Str ''g1'')),
      ClearAllRequest ''v1'' ''b'',
      ClearAllVote ''o2'' ''a'' True,
      ClientOp ''g'' ''o3'' ''stroke:point'' (sample_data (Str ''a'') (Str ''g1'')),
      ClientOp ''g'' ''o4'' ''stroke:end'' (sample_data (Str ''a'') (Str ''g1''))]"

text \<open>The identities of the users connected in a state.\<close>

definition connected :: "server \<Rightarrow> string set" where
  "connected s = fst ` set (users s)"

text \<open>The sockets that joined during a run, in join order, and the disconnect events.\<close>

fun joined :: "event list \<Rightarrow> string list" where
  "joined [] = []"
| "joined (Connection sid # es) = sid # joined es"
| "joined (e # es) = joined es"

fun is_disconnect :: "event \<Rightarrow> bool" where
  "is_disconnect (Disconnect uuid sid) = True"
| "is_disconnect e = False"

section \<open>Auxiliary facts\<close>

subsection \<open>Kinds\<close>

lemma endsWith_last: "endsWith k t \<Longrightarrow> t \<noteq> [] \<Longrightarrow> last k = last t"
  by (auto simp: endsWith_def suffix_def)

lemma endsWith_same_length:
  "endsWith k t \<Longrightarrow> endsWith k t' \<Longrightarrow> length t = length t' \<Longrightarrow> t = t'"
  by (auto simp: endsWith_def suffix_def append_eq_append_conv)

lemma endsWith_point_not_start: "endsWith k '':point'' \<Longrightarrow> \<not> endsWith k '':start''"
  by (auto dest: endsWith_same_length)

lemma endsWith_point_not_end: "endsWith k '':point'' \<Longrightarrow> \<not> endsWith k '':end''"
  by (auto dest!: endsWith_last)

lemma endsWith_end_not_start: "endsWith k '':end'' \<Longrightarrow> \<not> endsWith k '':start''"
  by (auto dest!: endsWith_last)

lemma endsWith_eval: "endsWith k t = prefix (rev t) (rev k)"
  by (simp add: endsWith_def suffix_to_prefix)

lemma clear_all_kind:
  "\<not> endsWith ''system:clear_all'' '':start''"
  "\<not> endsWith ''system:clear_all'' '':point''"
  "\<not> endsWith ''system:clear_all'' '':end''"
  by (simp_all add: endsWith_eval)

subsection \<open>addOp\<close>

lemma addOp_fst:
  "fst (addOp uuid kind dat s) =
     \<lparr>op_seq = seq s + 1, op_id = uuid, op_kind = kind, op_data = dat, op_tombstone = False\<rparr>"
  by (simp add: addOp_def Let_def split: option.splits)

lemma addOp_ops:
  "ops (snd (addOp uuid kind dat s)) = ops s @ [fst (addOp uuid kind dat s)]"
  by (simp add: addOp_def Let_def split: option.splits)

lemma addOp_seq: "seq (snd (addOp uuid kind dat s)) = seq s + 1"
  by (simp add: addOp_def Let_def split: option.splits)

lemma addOp_users: "users (snd (addOp uuid kind dat s)) = users s"
  by (simp add: addOp_def Let_def split: option.splits)

lemma addOp_vote: "vote (snd (addOp uuid kind dat s)) = vote s"
  by (simp add: addOp_def Let_def split: option.splits)

lemma addOp_clear_all:
  "addOp uuid ''system:clear_all'' dat s =
     (\<lparr>op_seq = seq s + 1, op_id = uuid, op_kind = ''system:clear_all'', op_data = dat,
       op_tombstone = False\<rparr>,
      s\<lparr>seq := seq s + 1,
        ops := ops s @ [\<lparr>op_seq = seq s + 1, op_id = uuid, op_kind = ''system:clear_all'',
                         op_data = dat, op_tombstone = False\<rparr>],
        undoStack := [], redoStack := []\<rparr>)"
  by (simp add: addOp_def Let_def clear_all_kind)

subsection \<open>Sequence numbers\<close>

lemma setOpTombstone_seqs: "map op_seq (setOpTombstone n val xs) = map op_seq xs"
  by (induction xs) auto

lemma fold_setOpTombstone_seqs:
  "map op_seq (foldl (\<lambda>os n. setOpTombstone n val os) xs ns) = map op_seq xs"
  by (induction ns arbitrary: xs) (auto simp: setOpTombstone_seqs)

lemma setGroupTombstone_seqs:
  "map op_seq (ops (snd (setGroupTombstone gid val s))) = map op_seq (ops s)"
  by (simp add: setGroupTombstone_def fold_setOpTombstone_seqs split: option.splits)

lemma setGroupTombstone_seq: "seq (snd (setGroupTombstone gid val s)) = seq s"
  by (simp add: setGroupTombstone_def split: option.splits)

lemma performUndo_seqs:
  "map op_seq (ops (snd (performUndo s))) = map op_seq (ops s) \<and> seq (snd (performUndo s)) = seq s"
proof (induction s rule: performUndo.induct)
  case (1 s)
  show ?case
    using 1 by (subst (1 2) performUndo.simps)
      (auto simp: Let_def setGroupTombstone_seqs setGroupTombstone_seq split: option.splits)
qed

lemma performRedo_seqs:
  "map op_seq (ops (snd (performRedo s))) = map op_seq (ops s) \<and> seq (snd (performRedo s)) = seq s"
proof (induction s rule: performRedo.induct)
  case (1 s)
  show ?case
    using 1 by (subst (1 2) performRedo.simps)
      (auto simp: Let_def setGroupTombstone_seqs setGroupTombstone_seq split: option.splits)
qed

lemma finalizeClear_seqs:
  "map op_seq (ops (finalizeClear uuid s)) = map op_seq (ops s) @ [seq s + 1]
   \<and> seq (finalizeClear uuid s) = seq s + 1"
  by (simp add: finalizeClear_def Let_def addOp_clear_all o_def if_distrib cong: if_cong)

lemma checkQuorum_seq_step:
  assumes "ops s1 = ops s" "seq s1 = seq s"
  shows "seq_step s (checkQuorum uuid s1)"
  using assms finalizeClear_seqs [of uuid s1] by (auto simp: seq_step_def checkQuorum_def)

lemma seq_step_refl: "seq_step s s"
  by (simp add: seq_step_def)

lemma step_seq_step: "seq_step s (step e s)"
proof (cases e)
  case (ClientOp ug uo kind dat)
  then show ?thesis
    by (simp add: seq_step_def client_op_def addOp_ops addOp_seq addOp_fst)
next
  case ClientUndo
  then show ?thesis by (simp add: seq_step_def client_undo_def performUndo_seqs)
next
  case ClientRedo
  then show ?thesis by (simp add: seq_step_def client_redo_def performRedo_seqs)
next
  case (Connection sid)
  then show ?thesis by (simp add: seq_step_def connection_def Let_def)
next
  case (ClearAllRequest uuid sid)
  then show ?thesis
    by (simp add: clear_all_request_def checkQuorum_seq_step seq_step_refl)
next
  case (ClearAllVote uuid sid y)
  then show ?thesis
    by (simp add: clear_all_vote_def checkQuorum_seq_step seq_step_refl)
next
  case (Disconnect uuid sid)
  then show ?thesis
    by (auto simp: disconnect_def Let_def checkQuorum_seq_step) (simp add: seq_step_def)
qed

lemma log_inv_seq_step: "log_inv s \<Longrightarrow> seq_step s s' \<Longrightarrow> log_inv s'"
proof -
  assume a: "log_inv s" "seq_step s s'"
  have b: "\<forall>n \<in> set (map op_seq (ops s)). n \<le> seq s" using a(1) by (simp add: log_inv_def)
  have c: "sorted_wrt (<) (map op_seq (ops s))" using a(1) by (simp add: log_inv_def)
  have d: "(\<forall>x \<in> set (ops s'). op_seq x \<le> seq s') = (\<forall>n \<in> set (map op_seq (ops s')). n \<le> seq s')"
    by simp
  from a(2) show ?thesis
    unfolding seq_step_def
  proof
    assume "map op_seq (ops s') = map op_seq (ops s) \<and> seq s' = seq s"
    then show ?thesis using b c unfolding log_inv_def d by simp
  next
    assume e: "map op_seq (ops s') = map op_seq (ops s) @ [seq s + 1] \<and> seq s' = seq s + 1"
    have "sorted_wrt (<) (map op_seq (ops s) @ [seq s + 1])"
      using b c by (auto simp: sorted_wrt_append)
    moreover have "\<forall>n \<in> set (map op_seq (ops s) @ [seq s + 1]). n \<le> seq s + 1"
      using b by auto
    ultimately show ?thesis using e unfolding log_inv_def d by simp
  qed
qed

lemma log_inv_init: "log_inv init"
  by (simp add: log_inv_def init_def)

lemma log_inv_step: "log_inv s \<Longrightarrow> log_inv (step e s)"
  using log_inv_seq_step step_seq_step by blast

lemma log_inv_run: "log_inv s \<Longrightarrow> log_inv (run s evs)"
  by (induction evs arbitrary: s) (auto simp: log_inv_step)



subsection \<open>Tombstoning a group\<close>

lemma log_inv_distinct: "log_inv s \<Longrightarrow> distinct (map op_seq (ops s))"
  by (simp add: log_inv_def strict_sorted_iff)

lemma setOpTombstone_map:
  "distinct (map op_seq xs) \<Longrightarrow>
   setOpTombstone n val xs = map (\<lambda>x. if op_seq x = n then x\<lparr>op_tombstone := val\<rparr> else x) xs"
proof (induction xs)
  case Nil
  then show ?case by simp
next
  case (Cons x xs)
  show ?case
  proof (cases "op_seq x = n")
    case True
    have "n \<notin> set (map op_seq xs)" using Cons.prems True by simp
    then have "\<forall>y \<in> set xs. op_seq y \<noteq> n" by (metis image_eqI set_map)
    then have "map (\<lambda>x. if op_seq x = n then x\<lparr>op_tombstone := val\<rparr> else x) xs = xs"
      by (intro map_idI) simp
    then show ?thesis using True by simp
  next
    case False
    then show ?thesis using Cons by simp
  qed
qed

lemma fold_setOpTombstone_map:
  "distinct (map op_seq xs) \<Longrightarrow>
   foldl (\<lambda>os n. setOpTombstone n val os) xs ns =
     map (\<lambda>x. if op_seq x \<in> set ns then x\<lparr>op_tombstone := val\<rparr> else x) xs"
proof (induction ns arbitrary: xs)
  case Nil
  then show ?case by simp
next
  case (Cons n ns)
  have d: "distinct (map op_seq (setOpTombstone n val xs))"
    using Cons.prems by (simp add: setOpTombstone_seqs)
  have "foldl (\<lambda>os n. setOpTombstone n val os) xs (n # ns) =
        foldl (\<lambda>os n. setOpTombstone n val os) (setOpTombstone n val xs) ns" by simp
  also have "\<dots> = map (\<lambda>x. if op_seq x \<in> set ns then x\<lparr>op_tombstone := val\<rparr> else x)
                      (setOpTombstone n val xs)"
    by (rule Cons.IH [OF d])
  also have "\<dots> = map (\<lambda>x. if op_seq x \<in> set (n # ns) then x\<lparr>op_tombstone := val\<rparr> else x) xs"
    by (simp add: setOpTombstone_map [OF Cons.prems])
  finally show ?case .
qed

lemma setGroupTombstone_Some:
  assumes "groups s gid = Some g" "log_inv s"
  shows "snd (setGroupTombstone gid val s) =
           s\<lparr>groups := (groups s)(gid \<mapsto> g\<lparr>g_tombstone := val\<rparr>),
             ops := map (\<lambda>x. if op_seq x \<in> set (g_seqs g) then x\<lparr>op_tombstone := val\<rparr> else x)
                        (ops s)\<rparr>"
  using assms by (simp add: setGroupTombstone_def fold_setOpTombstone_map log_inv_distinct)

lemma setGroupTombstone_undoStack:
  "snd (setGroupTombstone gid val (s\<lparr>undoStack := u\<rparr>)) = (snd (setGroupTombstone gid val s))\<lparr>undoStack := u\<rparr>"
  by (simp add: setGroupTombstone_def split: option.splits)

lemma setGroupTombstone_redoStack:
  "snd (setGroupTombstone gid val (s\<lparr>redoStack := u\<rparr>)) = (snd (setGroupTombstone gid val s))\<lparr>redoStack := u\<rparr>"
  by (simp add: setGroupTombstone_def split: option.splits)

lemma setGroupTombstone_stacks:
  "undoStack (snd (setGroupTombstone gid val s)) = undoStack s"
  "redoStack (snd (setGroupTombstone gid val s)) = redoStack s"
  by (simp_all add: setGroupTombstone_def split: option.splits)

subsection \<open>What undo and redo return\<close>

lemma performUndo_result:
  "(fst (performUndo s) = None \<and> snd (performUndo s) = s\<lparr>undoStack := []\<rparr>) \<or>
   (\<exists>gid g kept skipped.
      fst (performUndo s) = Some gid \<and> undoStack s = kept @ [gid] @ skipped \<and>
      groups s gid = Some g \<and> \<not> g_tombstone g \<and>
      (\<forall>k \<in> set skipped. \<forall>g'. groups s k = Some g' \<longrightarrow> g_tombstone g') \<and>
      snd (performUndo s) =
        (snd (setGroupTombstone gid True s))\<lparr>redoStack := redoStack s @ [gid], undoStack := kept\<rparr>)"
proof (induction s rule: performUndo.induct)
  case (1 s)
  show ?case
  proof (cases "undoStack s = []")
    case True
    then show ?thesis by (subst (1 2) performUndo.simps) simp
  next
    case ne: False
    define top where "top = last (undoStack s)"
    define s' where "s' = s\<lparr>undoStack := butlast (undoStack s)\<rparr>"
    have us: "undoStack s = butlast (undoStack s) @ [top]"
      using ne by (simp add: top_def)
    show ?thesis
    proof (cases "\<exists>g. groups s top = Some g \<and> \<not> g_tombstone g")
      case True
      then obtain g where g: "groups s top = Some g" "\<not> g_tombstone g" by blast
      have r: "performUndo s =
            (Some top, (snd (setGroupTombstone top True s))
                \<lparr>redoStack := redoStack s @ [top], undoStack := butlast (undoStack s)\<rparr>)"
        using ne g by (subst performUndo.simps) (simp add: Let_def top_def setGroupTombstone_stacks)
      have "fst (performUndo s) = Some top \<and> undoStack s = butlast (undoStack s) @ [top] @ [] \<and>
            groups s top = Some g \<and> \<not> g_tombstone g \<and>
            (\<forall>k \<in> set []. \<forall>g'. groups s k = Some g' \<longrightarrow> g_tombstone g') \<and>
            snd (performUndo s) = (snd (setGroupTombstone top True s))
                \<lparr>redoStack := redoStack s @ [top], undoStack := butlast (undoStack s)\<rparr>"
        using r g us by simp
      then show ?thesis by blast
    next
      case False
      then have skip: "\<forall>g'. groups s top = Some g' \<longrightarrow> g_tombstone g'" by blast
      have r: "performUndo s = performUndo s'"
        using ne False by (subst performUndo.simps) (auto simp: Let_def top_def s'_def split: option.splits)
      have ih: "(fst (performUndo s') = None \<and> snd (performUndo s') = s'\<lparr>undoStack := []\<rparr>) \<or>
        (\<exists>gid g kept skipped.
          fst (performUndo s') = Some gid \<and> undoStack s' = kept @ [gid] @ skipped \<and>
          groups s' gid = Some g \<and> \<not> g_tombstone g \<and>
          (\<forall>k \<in> set skipped. \<forall>g'. groups s' k = Some g' \<longrightarrow> g_tombstone g') \<and>
          snd (performUndo s') =
            (snd (setGroupTombstone gid True s'))\<lparr>redoStack := redoStack s' @ [gid], undoStack := kept\<rparr>)"
      proof (cases "groups s top")
        case None
        show ?thesis using "1.IH"(1) [OF ne top_def None] by (simp add: s'_def top_def)
      next
        case (Some g')
        then have "g_tombstone g'" using skip by simp
        then show ?thesis using "1.IH"(2) [OF ne top_def Some] by (simp add: s'_def top_def)
      qed
      then show ?thesis
      proof
        assume "fst (performUndo s') = None \<and> snd (performUndo s') = s'\<lparr>undoStack := []\<rparr>"
        then show ?thesis using r by (simp add: s'_def)
      next
        assume "\<exists>gid g kept skipped.
          fst (performUndo s') = Some gid \<and> undoStack s' = kept @ [gid] @ skipped \<and>
          groups s' gid = Some g \<and> \<not> g_tombstone g \<and>
          (\<forall>k \<in> set skipped. \<forall>g'. groups s' k = Some g' \<longrightarrow> g_tombstone g') \<and>
          snd (performUndo s') =
            (snd (setGroupTombstone gid True s'))\<lparr>redoStack := redoStack s' @ [gid], undoStack := kept\<rparr>"
        then obtain gid g kept skipped where
          h: "fst (performUndo s') = Some gid" "undoStack s' = kept @ [gid] @ skipped"
             "groups s' gid = Some g" "\<not> g_tombstone g"
             "\<forall>k \<in> set skipped. \<forall>g'. groups s' k = Some g' \<longrightarrow> g_tombstone g'"
             "snd (performUndo s') =
                (snd (setGroupTombstone gid True s'))\<lparr>redoStack := redoStack s' @ [gid], undoStack := kept\<rparr>"
          by blast
        have u: "undoStack s = kept @ [gid] @ (skipped @ [top])"
          using us h(2) by (simp add: s'_def)
        have sk: "\<forall>k \<in> set (skipped @ [top]). \<forall>g'. groups s k = Some g' \<longrightarrow> g_tombstone g'"
          using h(5) skip by (auto simp: s'_def)
        have st: "snd (performUndo s) =
            (snd (setGroupTombstone gid True s))\<lparr>redoStack := redoStack s @ [gid], undoStack := kept\<rparr>"
          using h(6) r by (simp add: s'_def setGroupTombstone_undoStack)
        have "fst (performUndo s) = Some gid \<and> undoStack s = kept @ [gid] @ (skipped @ [top]) \<and>
              groups s gid = Some g \<and> \<not> g_tombstone g \<and>
              (\<forall>k \<in> set (skipped @ [top]). \<forall>g'. groups s k = Some g' \<longrightarrow> g_tombstone g') \<and>
              snd (performUndo s) =
                (snd (setGroupTombstone gid True s))\<lparr>redoStack := redoStack s @ [gid], undoStack := kept\<rparr>"
          using h(1,3,4) r u sk st by (simp add: s'_def)
        then show ?thesis by blast
      qed
    qed
  qed
qed

lemma performRedo_result:
  "(fst (performRedo s) = None \<and> snd (performRedo s) = s\<lparr>redoStack := []\<rparr>) \<or>
   (\<exists>gid g kept skipped.
      fst (performRedo s) = Some gid \<and> redoStack s = kept @ [gid] @ skipped \<and>
      groups s gid = Some g \<and> g_tombstone g \<and>
      (\<forall>k \<in> set skipped. \<forall>g'. groups s k = Some g' \<longrightarrow> \<not> g_tombstone g') \<and>
      snd (performRedo s) =
        (snd (setGroupTombstone gid False s))\<lparr>redoStack := kept, undoStack := undoStack s @ [gid]\<rparr>)"
proof (induction s rule: performRedo.induct)
  case (1 s)
  show ?case
  proof (cases "redoStack s = []")
    case True
    then show ?thesis by (subst (1 2) performRedo.simps) simp
  next
    case ne: False
    define top where "top = last (redoStack s)"
    define s' where "s' = s\<lparr>redoStack := butlast (redoStack s)\<rparr>"
    have us: "redoStack s = butlast (redoStack s) @ [top]"
      using ne by (simp add: top_def)
    show ?thesis
    proof (cases "\<exists>g. groups s top = Some g \<and> g_tombstone g")
      case True
      then obtain g where g: "groups s top = Some g" "g_tombstone g" by blast
      have r: "performRedo s =
            (Some top, (snd (setGroupTombstone top False s))
                \<lparr>redoStack := butlast (redoStack s), undoStack := undoStack s @ [top]\<rparr>)"
        using ne g by (subst performRedo.simps)
          (simp add: Let_def top_def setGroupTombstone_stacks setGroupTombstone_redoStack)
      have "fst (performRedo s) = Some top \<and> redoStack s = butlast (redoStack s) @ [top] @ [] \<and>
            groups s top = Some g \<and> g_tombstone g \<and>
            (\<forall>k \<in> set []. \<forall>g'. groups s k = Some g' \<longrightarrow> \<not> g_tombstone g') \<and>
            snd (performRedo s) = (snd (setGroupTombstone top False s))
                \<lparr>redoStack := butlast (redoStack s), undoStack := undoStack s @ [top]\<rparr>"
        using r g us by simp
      then show ?thesis by blast
    next
      case False
      then have skip: "\<forall>g'. groups s top = Some g' \<longrightarrow> \<not> g_tombstone g'" by blast
      have r: "performRedo s = performRedo s'"
        using ne False by (subst performRedo.simps) (auto simp: Let_def top_def s'_def split: option.splits)
      have ih: "(fst (performRedo s') = None \<and> snd (performRedo s') = s'\<lparr>redoStack := []\<rparr>) \<or>
        (\<exists>gid g kept skipped.
          fst (performRedo s') = Some gid \<and> redoStack s' = kept @ [gid] @ skipped \<and>
          groups s' gid = Some g \<and> g_tombstone g \<and>
          (\<forall>k \<in> set skipped. \<forall>g'. groups s' k = Some g' \<longrightarrow> \<not> g_tombstone g') \<and>
          snd (performRedo s') =
            (snd (setGroupTombstone gid False s'))\<lparr>redoStack := kept, undoStack := undoStack s' @ [gid]\<rparr>)"
      proof (cases "groups s top")
        case None
        then have "groups s' top = None" by (simp add: s'_def)
        then show ?thesis using "1.IH"(1) [OF ne top_def s'_def] by simp
      next
        case (Some g')
        then have "groups s' top = Some g'" "\<not> g_tombstone g'" using skip by (simp_all add: s'_def)
        then show ?thesis using "1.IH"(2) [OF ne top_def s'_def] by simp
      qed
      then show ?thesis
      proof
        assume "fst (performRedo s') = None \<and> snd (performRedo s') = s'\<lparr>redoStack := []\<rparr>"
        then show ?thesis using r by (simp add: s'_def)
      next
        assume "\<exists>gid g kept skipped.
          fst (performRedo s') = Some gid \<and> redoStack s' = kept @ [gid] @ skipped \<and>
          groups s' gid = Some g \<and> g_tombstone g \<and>
          (\<forall>k \<in> set skipped. \<forall>g'. groups s' k = Some g' \<longrightarrow> \<not> g_tombstone g') \<and>
          snd (performRedo s') =
            (snd (setGroupTombstone gid False s'))\<lparr>redoStack := kept, undoStack := undoStack s' @ [gid]\<rparr>"
        then obtain gid g kept skipped where
          h: "fst (performRedo s') = Some gid" "redoStack s' = kept @ [gid] @ skipped"
             "groups s' gid = Some g" "g_tombstone g"
             "\<forall>k \<in> set skipped. \<forall>g'. groups s' k = Some g' \<longrightarrow> \<not> g_tombstone g'"
             "snd (performRedo s') =
                (snd (setGroupTombstone gid False s'))\<lparr>redoStack := kept, undoStack := undoStack s' @ [gid]\<rparr>"
          by blast
        have u: "redoStack s = kept @ [gid] @ (skipped @ [top])"
          using us h(2) by (simp add: s'_def)
        have sk: "\<forall>k \<in> set (skipped @ [top]). \<forall>g'. groups s k = Some g' \<longrightarrow> \<not> g_tombstone g'"
          using h(5) skip by (auto simp: s'_def)
        have st: "snd (performRedo s) =
            (snd (setGroupTombstone gid False s))\<lparr>redoStack := kept, undoStack := undoStack s @ [gid]\<rparr>"
          using h(6) r by (simp add: s'_def setGroupTombstone_redoStack)
        have "fst (performRedo s) = Some gid \<and> redoStack s = kept @ [gid] @ (skipped @ [top]) \<and>
              groups s gid = Some g \<and> g_tombstone g \<and>
              (\<forall>k \<in> set (skipped @ [top]). \<forall>g'. groups s k = Some g' \<longrightarrow> \<not> g_tombstone g') \<and>
              snd (performRedo s) =
                (snd (setGroupTombstone gid False s))\<lparr>redoStack := kept, undoStack := undoStack s @ [gid]\<rparr>"
          using h(1,3,4) r u sk st by (simp add: s'_def)
        then show ?thesis by blast
      qed
    qed
  qed
qed

subsection \<open>How an append changes the groups\<close>

lemma addOp_groups_cases:
  obtains (same) "groups (snd (addOp uuid kind dat s)) = groups s"
  | (start) "endsWith kind '':start''"
      "groups (snd (addOp uuid kind dat s)) =
         (groups s)(d_groupId dat \<mapsto>
            \<lparr>g_kind = kind, g_by = d_userId dat, g_seqs = [seq s + 1], g_tombstone = False\<rparr>)"
  | (extend) g where "\<not> endsWith kind '':start''"
      "endsWith kind '':point'' \<or> endsWith kind '':end''"
      "groups s (d_groupId dat) = Some g"
      "groups (snd (addOp uuid kind dat s)) =
         (groups s)(d_groupId dat \<mapsto> g\<lparr>g_seqs := g_seqs g @ [seq s + 1]\<rparr>)"
proof (cases "endsWith kind '':start''")
  case True
  then show ?thesis using start by (simp add: addOp_def Let_def)
next
  case ns: False
  show ?thesis
  proof (cases "endsWith kind '':point'' \<or> endsWith kind '':end''")
    case False
    then show ?thesis using same ns by (simp add: addOp_def Let_def)
  next
    case pe: True
    show ?thesis
    proof (cases "groups s (d_groupId dat)")
      case None
      then show ?thesis using same ns by (simp add: addOp_def Let_def)
    next
      case (Some g)
      have "groups (snd (addOp uuid kind dat s)) =
         (groups s)(d_groupId dat \<mapsto> g\<lparr>g_seqs := g_seqs g @ [seq s + 1]\<rparr>)"
        using ns pe Some by (auto simp: addOp_def Let_def)
      then show ?thesis using extend ns pe Some by blast
    qed
  qed
qed

lemma finalizeClear_eq:
  "finalizeClear uuid s =
     s\<lparr>seq := seq s + 1,
       ops := map (\<lambda>x. if op_id x \<noteq> uuid then x\<lparr>op_tombstone := True\<rparr> else x) (ops s) @
              [\<lparr>op_seq = seq s + 1, op_id = uuid, op_kind = ''system:clear_all'',
                op_data = SYSTEM_CLEAR_DATA, op_tombstone = False\<rparr>],
       groups := (\<lambda>k. map_option (\<lambda>g. g\<lparr>g_tombstone := True\<rparr>) (groups s k)),
       undoStack := [], redoStack := [],
       vote := (vote s)\<lparr>inProgress := False\<rparr>\<rparr>"
  by (simp add: finalizeClear_def addOp_clear_all Let_def)

subsection \<open>The group invariants under the three mutations\<close>

lemma log_inv_addOp: "log_inv s \<Longrightarrow> log_inv (snd (addOp uuid kind dat s))"
  using log_inv_seq_step [of s "snd (addOp uuid kind dat s)"]
  by (simp add: seq_step_def addOp_ops addOp_seq addOp_fst)

lemma log_inv_setGroupTombstone: "log_inv s \<Longrightarrow> log_inv (snd (setGroupTombstone gid val s))"
  using log_inv_seq_step [of s "snd (setGroupTombstone gid val s)"]
  by (simp add: seq_step_def setGroupTombstone_seqs setGroupTombstone_seq)

lemma log_inv_finalizeClear: "log_inv s \<Longrightarrow> log_inv (finalizeClear uuid s)"
  using log_inv_seq_step [of s "finalizeClear uuid s"]
  by (simp add: seq_step_def finalizeClear_seqs)

lemma groups_inv_bound:
  "groups_inv s \<Longrightarrow> groups s gid = Some g \<Longrightarrow> n \<in> set (g_seqs g) \<Longrightarrow> n \<le> seq s"
  unfolding groups_inv_def by blast

lemma groups_inv_disjoint:
  "groups_inv s \<Longrightarrow> gid \<noteq> gid' \<Longrightarrow> groups s gid = Some g \<Longrightarrow> groups s gid' = Some g' \<Longrightarrow>
   n \<in> set (g_seqs g) \<Longrightarrow> n \<in> set (g_seqs g') \<Longrightarrow> False"
  unfolding groups_inv_def by blast

lemma groups_invI:
  assumes "\<And>gid g n. groups s gid = Some g \<Longrightarrow> n \<in> set (g_seqs g) \<Longrightarrow> n \<le> seq s"
    and "\<And>gid gid' g g' n. gid \<noteq> gid' \<Longrightarrow> groups s gid = Some g \<Longrightarrow> groups s gid' = Some g' \<Longrightarrow>
           n \<in> set (g_seqs g) \<Longrightarrow> n \<in> set (g_seqs g') \<Longrightarrow> False"
  shows "groups_inv s"
  unfolding groups_inv_def using assms by blast

lemma groups_inv_same:
  assumes inv: "groups_inv s" and le: "seq s \<le> seq s'"
    and same: "\<And>k. map_option g_seqs (groups s' k) = map_option g_seqs (groups s k)"
  shows "groups_inv s'"
proof (rule groups_invI)
  fix gid g n assume a: "groups s' gid = Some g" "n \<in> set (g_seqs g)"
  then obtain g0 where "groups s gid = Some g0" "g_seqs g0 = g_seqs g"
    using same [of gid] by (cases "groups s gid") auto
  then show "n \<le> seq s'" using groups_inv_bound [OF inv, of gid g0 n] a le by simp
next
  fix gid gid' g g' n
  assume a: "gid \<noteq> gid'" "groups s' gid = Some g" "groups s' gid' = Some g'"
    "n \<in> set (g_seqs g)" "n \<in> set (g_seqs g')"
  obtain g0 where g0: "groups s gid = Some g0" "g_seqs g0 = g_seqs g"
    using same [of gid] a(2) by (cases "groups s gid") auto
  obtain g1 where g1: "groups s gid' = Some g1" "g_seqs g1 = g_seqs g'"
    using same [of gid'] a(3) by (cases "groups s gid'") auto
  show False using groups_inv_disjoint [OF inv a(1) g0(1) g1(1), of n] a g0 g1 by simp
qed

lemma groups_inv_update:
  assumes inv: "groups_inv s" and sq: "seq s' = seq s + 1"
    and upd: "groups s' = (groups s)(k \<mapsto> G)"
    and mem: "\<And>n. n \<in> set (g_seqs G) \<Longrightarrow>
                n = seq s + 1 \<or> (\<exists>g. groups s k = Some g \<and> n \<in> set (g_seqs g))"
  shows "groups_inv s'"
proof (rule groups_invI)
  fix gid g n assume a: "groups s' gid = Some g" "n \<in> set (g_seqs g)"
  show "n \<le> seq s'"
  proof (cases "gid = k")
    case True
    then have "g = G" using a(1) upd by simp
    then show ?thesis using mem [of n] a(2) groups_inv_bound [OF inv, of k _ n] sq by fastforce
  next
    case False
    then have "groups s gid = Some g" using a(1) upd by simp
    then show ?thesis using groups_inv_bound [OF inv, of gid g n] a(2) sq by simp
  qed
next
  fix gid gid' g g' n
  assume a: "gid \<noteq> gid'" "groups s' gid = Some g" "groups s' gid' = Some g'"
    "n \<in> set (g_seqs g)" "n \<in> set (g_seqs g')"
  have key: "\<And>j gj. j \<noteq> k \<Longrightarrow> groups s j = Some gj \<Longrightarrow> n \<in> set (g_seqs gj) \<Longrightarrow>
               n \<in> set (g_seqs G) \<Longrightarrow> False"
  proof -
    fix j gj assume b: "j \<noteq> k" "groups s j = Some gj" "n \<in> set (g_seqs gj)" "n \<in> set (g_seqs G)"
    have "n \<le> seq s" using groups_inv_bound [OF inv b(2,3)] .
    then obtain g0 where "groups s k = Some g0" "n \<in> set (g_seqs g0)" using mem [OF b(4)] by auto
    then show False using groups_inv_disjoint [OF inv b(1) b(2) _ b(3)] by blast
  qed
  show False
  proof (cases "gid = k")
    case True
    then have "g = G" "groups s gid' = Some g'" using a(1,2,3) upd by auto
    then show ?thesis using key [of gid' g'] a True by auto
  next
    case False
    then have g: "groups s gid = Some g" using a(2) upd by simp
    show ?thesis
    proof (cases "gid' = k")
      case True
      then have "g' = G" using a(3) upd by simp
      then show ?thesis using key [OF False g] a by auto
    next
      case False
      then have "groups s gid' = Some g'" using a(3) upd by simp
      then show ?thesis using groups_inv_disjoint [OF inv a(1) g _ a(4) a(5)] by blast
    qed
  qed
qed

lemma groups_inv_addOp:
  assumes "groups_inv s"
  shows "groups_inv (snd (addOp uuid kind dat s))"
proof (cases rule: addOp_groups_cases [of uuid kind dat s])
  case same
  show ?thesis by (rule groups_inv_same [OF assms]) (simp_all add: addOp_seq same)
next
  case start
  show ?thesis by (rule groups_inv_update [OF assms addOp_seq start(2)]) simp
next
  case (extend g)
  show ?thesis by (rule groups_inv_update [OF assms addOp_seq extend(4)]) (auto simp: extend(3))
qed

lemma groups_inv_setGroupTombstone:
  assumes "groups_inv s"
  shows "groups_inv (snd (setGroupTombstone gid val s))"
  by (rule groups_inv_same [OF assms])
     (auto simp: setGroupTombstone_def split: option.splits)

lemma groups_inv_finalizeClear:
  assumes "groups_inv s"
  shows "groups_inv (finalizeClear uuid s)"
  by (rule groups_inv_same [OF assms])
     (simp_all add: finalizeClear_eq option.map_comp o_def)

lemma log_inv_bound: "log_inv s \<Longrightarrow> x \<in> set (ops s) \<Longrightarrow> op_seq x \<le> seq s"
  by (simp add: log_inv_def)

lemma members_relatedI:
  assumes "\<And>gid g x. groups s gid = Some g \<Longrightarrow> x \<in> set (ops s) \<Longrightarrow>
             op_seq x \<in> set (g_seqs g) \<Longrightarrow> R (g_tombstone g) (op_tombstone x)"
  shows "members_related R s"
  unfolding members_related_def using assms by blast

lemma members_relatedD:
  "members_related R s \<Longrightarrow> groups s gid = Some g \<Longrightarrow> x \<in> set (ops s) \<Longrightarrow>
   op_seq x \<in> set (g_seqs g) \<Longrightarrow> R (g_tombstone g) (op_tombstone x)"
  unfolding members_related_def by blast

lemma members_related_addOp:
  assumes li: "log_inv s" and gi: "groups_inv s" and mr: "members_related R s"
    and ff: "R False False"
    and tf: "\<And>g. \<not> endsWith kind '':start'' \<Longrightarrow> endsWith kind '':point'' \<or> endsWith kind '':end'' \<Longrightarrow>
               groups s (d_groupId dat) = Some g \<Longrightarrow> g_tombstone g \<Longrightarrow> R True False"
  shows "members_related R (snd (addOp uuid kind dat s))"
proof (rule members_relatedI)
  fix gid g x
  define s' where "s' = snd (addOp uuid kind dat s)"
  define new where "new = fst (addOp uuid kind dat s)"
  assume "groups (snd (addOp uuid kind dat s)) gid = Some g"
    "x \<in> set (ops (snd (addOp uuid kind dat s)))" "op_seq x \<in> set (g_seqs g)"
  then have a: "groups s' gid = Some g" "x \<in> set (ops s) \<or> x = new" "op_seq x \<in> set (g_seqs g)"
    by (auto simp: s'_def new_def addOp_ops)
  have nw: "op_seq new = seq s + 1" "\<not> op_tombstone new" by (simp_all add: new_def addOp_fst)
  have old: "\<And>g0. groups s gid = Some g0 \<Longrightarrow> op_seq x \<in> set (g_seqs g0) \<Longrightarrow>
                R (g_tombstone g0) (op_tombstone x)"
  proof -
    fix g0 assume b: "groups s gid = Some g0" "op_seq x \<in> set (g_seqs g0)"
    have "op_seq x \<le> seq s" using groups_inv_bound [OF gi b] .
    then have "x \<in> set (ops s)" using a(2) nw by auto
    then show "R (g_tombstone g0) (op_tombstone x)" using members_relatedD [OF mr b(1) _ b(2)] by simp
  qed
  show "R (g_tombstone g) (op_tombstone x)"
  proof (cases rule: addOp_groups_cases [of uuid kind dat s])
    case same
    then show ?thesis using old [of g] a by (simp add: s'_def)
  next
    case start
    show ?thesis
    proof (cases "gid = d_groupId dat")
      case True
      then have g: "g_seqs g = [seq s + 1]" "\<not> g_tombstone g" using a(1) start(2) by (auto simp: s'_def)
      then have "x = new" using a(2,3) log_inv_bound [OF li, of x] by auto
      then show ?thesis using g nw ff by simp
    next
      case False
      then show ?thesis using old [of g] a start(2) by (simp add: s'_def)
    qed
  next
    case (extend g0)
    show ?thesis
    proof (cases "gid = d_groupId dat")
      case True
      then have g: "g_seqs g = g_seqs g0 @ [seq s + 1]" "g_tombstone g = g_tombstone g0"
        using a(1) extend(4) by (auto simp: s'_def)
      show ?thesis
      proof (cases "x = new")
        case True
        then show ?thesis using g nw ff tf [OF extend(1,2,3)] by (cases "g_tombstone g0") simp_all
      next
        case False
        then have "x \<in> set (ops s)" using a(2) by simp
        then have "op_seq x \<in> set (g_seqs g0)" using a(3) g log_inv_bound [OF li, of x] by auto
        then show ?thesis using old [of g0] extend(3) True g by simp
      qed
    next
      case False
      then show ?thesis using old [of g] a extend(4) by (simp add: s'_def)
    qed
  qed
qed

lemma members_related_setGroupTombstone:
  assumes li: "log_inv s" and gi: "groups_inv s" and mr: "members_related R s"
    and rr: "R val val"
  shows "members_related R (snd (setGroupTombstone gid val s))"
proof (cases "groups s gid")
  case None
  then show ?thesis using mr by (simp add: setGroupTombstone_def)
next
  case (Some g0)
  note eq = setGroupTombstone_Some [OF Some li, of val]
  show ?thesis
  proof (rule members_relatedI)
    fix k g x
    assume "groups (snd (setGroupTombstone gid val s)) k = Some g"
      "x \<in> set (ops (snd (setGroupTombstone gid val s)))" "op_seq x \<in> set (g_seqs g)"
    then have a: "((groups s)(gid \<mapsto> g0\<lparr>g_tombstone := val\<rparr>)) k = Some g"
      "x \<in> set (map (\<lambda>x. if op_seq x \<in> set (g_seqs g0) then x\<lparr>op_tombstone := val\<rparr> else x) (ops s))"
      "op_seq x \<in> set (g_seqs g)"
      by (simp_all add: eq)
    from a(2) obtain y where y: "y \<in> set (ops s)"
      "x = (if op_seq y \<in> set (g_seqs g0) then y\<lparr>op_tombstone := val\<rparr> else y)" by auto
    then have sq: "op_seq x = op_seq y" by simp
    show "R (g_tombstone g) (op_tombstone x)"
    proof (cases "k = gid")
      case True
      then have "g = g0\<lparr>g_tombstone := val\<rparr>" using a(1) by simp
      then show ?thesis using y a(3) sq rr by simp
    next
      case False
      then have g: "groups s k = Some g" using a(1) by simp
      have "op_seq y \<notin> set (g_seqs g0)"
        using groups_inv_disjoint [OF gi False g Some, of "op_seq y"] a(3) sq by auto
      then have "x = y" using y by simp
      then show ?thesis using members_relatedD [OF mr g y(1)] a(3) by simp
    qed
  qed
qed

lemma members_related_finalizeClear:
  assumes li: "log_inv s" and gi: "groups_inv s" and mr: "members_related R s"
    and tt: "R True True"
    and nf: "\<not> fresh uuid s \<Longrightarrow> R True False"
  shows "members_related R (finalizeClear uuid s)"
proof (rule members_relatedI)
  fix k g x
  assume a: "groups (finalizeClear uuid s) k = Some g" "x \<in> set (ops (finalizeClear uuid s))"
    "op_seq x \<in> set (g_seqs g)"
  from a(1) obtain g0 where g0: "groups s k = Some g0" "g = g0\<lparr>g_tombstone := True\<rparr>"
    by (auto simp: finalizeClear_eq)
  have "op_seq x \<le> seq s" using groups_inv_bound [OF gi g0(1), of "op_seq x"] a(3) g0(2) by simp
  then obtain y where y: "y \<in> set (ops s)"
    "x = (if op_id y \<noteq> uuid then y\<lparr>op_tombstone := True\<rparr> else y)"
    using a(2) by (auto simp: finalizeClear_eq)
  show "R (g_tombstone g) (op_tombstone x)"
  proof (cases "op_id y = uuid")
    case False
    then show ?thesis using y g0 tt by simp
  next
    case True
    then have "\<not> fresh uuid s" using y(1) by (auto simp: fresh_def)
    then have "R True False" by (rule nf)
    then show ?thesis using y g0 tt True by (cases "op_tombstone y") simp_all
  qed
qed

subsection \<open>The invariants along a run\<close>

lemma state_inv_frame:
  "state_inv R s \<Longrightarrow> ops s' = ops s \<Longrightarrow> groups s' = groups s \<Longrightarrow> seq s' = seq s \<Longrightarrow> state_inv R s'"
  by (simp add: state_inv_def log_inv_def groups_inv_def members_related_def)

lemma state_inv_init: "state_inv R init"
  by (simp add: state_inv_def log_inv_def groups_inv_def members_related_def init_def)

lemma state_inv_addOp:
  assumes "state_inv R s" "R False False" "live_target kind dat s \<or> R True False"
  shows "state_inv R (snd (addOp uuid kind dat s))"
proof -
  have "members_related R (snd (addOp uuid kind dat s))"
  proof (rule members_related_addOp)
    fix g
    assume "\<not> endsWith kind '':start''" "endsWith kind '':point'' \<or> endsWith kind '':end''"
      "groups s (d_groupId dat) = Some g" "g_tombstone g"
    then have "\<not> live_target kind dat s" by (simp add: live_target_def)
    then show "R True False" using assms(3) by simp
  qed (use assms in \<open>simp_all add: state_inv_def\<close>)
  then show ?thesis
    using assms(1) by (simp add: state_inv_def log_inv_addOp groups_inv_addOp)
qed

lemma state_inv_setGroupTombstone:
  assumes "state_inv R s" "R val val"
  shows "state_inv R (snd (setGroupTombstone gid val s))"
  using assms
  by (simp add: state_inv_def log_inv_setGroupTombstone groups_inv_setGroupTombstone
      members_related_setGroupTombstone)

lemma state_inv_finalizeClear:
  assumes "state_inv R s" "R True True" "fresh uuid s \<or> R True False"
  shows "state_inv R (finalizeClear uuid s)"
proof -
  have "members_related R (finalizeClear uuid s)"
    by (rule members_related_finalizeClear) (use assms in \<open>auto simp: state_inv_def\<close>)
  then show ?thesis
    using assms(1) by (simp add: state_inv_def log_inv_finalizeClear groups_inv_finalizeClear)
qed

lemma state_inv_performUndo:
  assumes "state_inv R s" "R True True"
  shows "state_inv R (snd (performUndo s))"
  using performUndo_result [of s]
proof
  assume "fst (performUndo s) = None \<and> snd (performUndo s) = s\<lparr>undoStack := []\<rparr>"
  then show ?thesis using state_inv_frame [OF assms(1), of "s\<lparr>undoStack := []\<rparr>"] by simp
next
  assume "\<exists>gid g kept skipped.
      fst (performUndo s) = Some gid \<and> undoStack s = kept @ [gid] @ skipped \<and>
      groups s gid = Some g \<and> \<not> g_tombstone g \<and>
      (\<forall>k \<in> set skipped. \<forall>g'. groups s k = Some g' \<longrightarrow> g_tombstone g') \<and>
      snd (performUndo s) =
        (snd (setGroupTombstone gid True s))\<lparr>redoStack := redoStack s @ [gid], undoStack := kept\<rparr>"
  then obtain gid kept where e: "snd (performUndo s) =
        (snd (setGroupTombstone gid True s))\<lparr>redoStack := redoStack s @ [gid], undoStack := kept\<rparr>"
    by blast
  show ?thesis
    unfolding e
    by (rule state_inv_frame [OF state_inv_setGroupTombstone [OF assms, of gid]]) simp_all
qed

lemma state_inv_performRedo:
  assumes "state_inv R s" "R False False"
  shows "state_inv R (snd (performRedo s))"
  using performRedo_result [of s]
proof
  assume "fst (performRedo s) = None \<and> snd (performRedo s) = s\<lparr>redoStack := []\<rparr>"
  then show ?thesis using state_inv_frame [OF assms(1), of "s\<lparr>redoStack := []\<rparr>"] by simp
next
  assume "\<exists>gid g kept skipped.
      fst (performRedo s) = Some gid \<and> redoStack s = kept @ [gid] @ skipped \<and>
      groups s gid = Some g \<and> g_tombstone g \<and>
      (\<forall>k \<in> set skipped. \<forall>g'. groups s k = Some g' \<longrightarrow> \<not> g_tombstone g') \<and>
      snd (performRedo s) =
        (snd (setGroupTombstone gid False s))\<lparr>redoStack := kept, undoStack := undoStack s @ [gid]\<rparr>"
  then obtain gid kept where e: "snd (performRedo s) =
        (snd (setGroupTombstone gid False s))\<lparr>redoStack := kept, undoStack := undoStack s @ [gid]\<rparr>"
    by blast
  show ?thesis
    unfolding e
    by (rule state_inv_frame [OF state_inv_setGroupTombstone [OF assms, of gid]]) simp_all
qed

lemma state_inv_checkQuorum:
  assumes "state_inv R s" "R True True" "fresh uuid s \<or> R True False"
  shows "state_inv R (checkQuorum uuid s)"
  using assms by (simp add: checkQuorum_def state_inv_finalizeClear)

lemma fresh_frame: "ops s' = ops s \<Longrightarrow> fresh uuid s' = fresh uuid s"
  by (simp add: fresh_def)

lemma state_inv_step:
  assumes inv: "state_inv R s" and ff: "R False False" and tt: "R True True"
    and ad: "admissible e s \<or> R True False"
  shows "state_inv R (step e s)"
proof (cases e)
  case (Connection sid)
  then show ?thesis using state_inv_frame [OF inv] by (simp add: connection_def Let_def)
next
  case (ClientOp ug uo kind dat)
  then have "live_target kind (mintGroupId ug kind dat) s \<or> R True False" using ad by auto
  then show ?thesis using ClientOp state_inv_addOp [OF inv ff] by (simp add: client_op_def)
next
  case ClientUndo
  then show ?thesis using state_inv_performUndo [OF inv tt] by (simp add: client_undo_def)
next
  case ClientRedo
  then show ?thesis using state_inv_performRedo [OF inv ff] by (simp add: client_redo_def)
next
  case (ClearAllRequest uuid sid)
  define s1 where "s1 = s\<lparr>vote := \<lparr>inProgress = True, yes = [sid],
                         totalAtStart = int (length (users s))\<rparr>\<rparr>"
  have i1: "state_inv R s1" by (rule state_inv_frame [OF inv]) (simp_all add: s1_def)
  have "fresh uuid s1 \<or> R True False" using ad ClearAllRequest by (auto simp: s1_def fresh_def)
  then have "state_inv R (checkQuorum uuid s1)" by (rule state_inv_checkQuorum [OF i1 tt])
  then show ?thesis using ClearAllRequest inv by (simp add: clear_all_request_def s1_def)
next
  case (ClearAllVote uuid sid y)
  define s1 where "s1 = (if y then s\<lparr>vote := (vote s)\<lparr>yes := set_add sid (yes (vote s))\<rparr>\<rparr> else s)"
  have i1: "state_inv R s1" by (rule state_inv_frame [OF inv]) (simp_all add: s1_def)
  have "fresh uuid s1 \<or> R True False" using ad ClearAllVote by (auto simp: s1_def fresh_def)
  then have "state_inv R (checkQuorum uuid s1)" by (rule state_inv_checkQuorum [OF i1 tt])
  then show ?thesis using ClearAllVote inv by (simp add: clear_all_vote_def s1_def)
next
  case (Disconnect uuid sid)
  define s0 where "s0 = s\<lparr>users := AList.delete sid (users s)\<rparr>"
  define s1 where "s1 = s0\<lparr>vote := (vote s0)\<lparr>totalAtStart := max (totalAtStart (vote s0) - 1) 0\<rparr>\<rparr>"
  have i0: "state_inv R s0" by (rule state_inv_frame [OF inv]) (simp_all add: s0_def)
  have i1: "state_inv R s1" by (rule state_inv_frame [OF inv]) (simp_all add: s1_def s0_def)
  have "fresh uuid s1 \<or> R True False" using ad Disconnect by (auto simp: s1_def s0_def fresh_def)
  then have "state_inv R (checkQuorum uuid s1)" by (rule state_inv_checkQuorum [OF i1 tt])
  then show ?thesis using Disconnect i0 by (simp add: disconnect_def Let_def s1_def s0_def)
qed

lemma state_inv_run:
  assumes "state_inv R s" "R False False" "R True True" "admissible_run s evs \<or> R True False"
  shows "state_inv R (run s evs)"
  using assms(1,4)
proof (induction evs arbitrary: s)
  case Nil
  then show ?case by simp
next
  case (Cons e es)
  have "state_inv R (step e s)"
    by (rule state_inv_step [OF Cons.prems(1) assms(2,3)]) (use Cons.prems(2) in auto)
  moreover have "admissible_run (step e s) es \<or> R True False" using Cons.prems(2) by auto
  ultimately show ?case using Cons.IH by simp
qed

lemma live_run: "state_inv (\<lambda>gt ot. \<not> gt \<longrightarrow> \<not> ot) (run init evs)"
  by (rule state_inv_run [OF state_inv_init]) simp_all

lemma agree_run:
  "admissible_run init evs \<Longrightarrow> state_inv (\<lambda>gt ot. ot = gt) (run init evs)"
  by (rule state_inv_run [OF state_inv_init]) simp_all

lemma tombstones_agree_admissible: "admissible_run init evs \<Longrightarrow> tombstones_agree (run init evs)"
  using agree_run [of evs] by (simp add: state_inv_def tombstones_agree_def members_related_def)

subsection \<open>Undo followed by redo\<close>

lemma undo_redo_roundtrip:
  assumes inv: "state_inv (\<lambda>gt ot. \<not> gt \<longrightarrow> \<not> ot) s" and u: "fst (performUndo s) = Some gid"
  shows "\<exists>g kept skipped.
           groups s gid = Some g \<and> \<not> g_tombstone g \<and> undoStack s = kept @ [gid] @ skipped \<and>
           snd (performUndo s) =
             s\<lparr>groups := (groups s)(gid \<mapsto> g\<lparr>g_tombstone := True\<rparr>),
               ops := map (\<lambda>x. if op_seq x \<in> set (g_seqs g) then x\<lparr>op_tombstone := True\<rparr> else x)
                          (ops s),
               redoStack := redoStack s @ [gid], undoStack := kept\<rparr> \<and>
           performRedo (snd (performUndo s)) = (Some gid, s\<lparr>undoStack := kept @ [gid]\<rparr>)"
proof -
  have li: "log_inv s" and mr: "members_related (\<lambda>gt ot. \<not> gt \<longrightarrow> \<not> ot) s"
    using inv by (simp_all add: state_inv_def)
  from performUndo_result [of s] u obtain g kept skipped where
    r: "undoStack s = kept @ [gid] @ skipped" "groups s gid = Some g" "\<not> g_tombstone g"
       "snd (performUndo s) =
          (snd (setGroupTombstone gid True s))\<lparr>redoStack := redoStack s @ [gid], undoStack := kept\<rparr>"
    by auto
  define f :: "bool \<Rightarrow> op \<Rightarrow> op" where "f = (\<lambda>v x. if op_seq x \<in> set (g_seqs g) then x\<lparr>op_tombstone := v\<rparr> else x)"
  define s1 where "s1 = snd (performUndo s)"
  have s1: "s1 = s\<lparr>groups := (groups s)(gid \<mapsto> g\<lparr>g_tombstone := True\<rparr>),
                  ops := map (f True) (ops s),
                  redoStack := redoStack s @ [gid], undoStack := kept\<rparr>"
    unfolding s1_def r(4) setGroupTombstone_Some [OF r(2) li] f_def by simp
  define s1' where "s1' = s1\<lparr>redoStack := butlast (redoStack s1)\<rparr>"
  have i1: "state_inv (\<lambda>gt ot. \<not> gt \<longrightarrow> \<not> ot) s1"
    unfolding s1_def by (rule state_inv_performUndo [OF inv]) simp
  have "state_inv (\<lambda>gt ot. \<not> gt \<longrightarrow> \<not> ot) s1'"
    by (rule state_inv_frame [OF i1]) (simp_all add: s1'_def)
  then have li1: "log_inv s1'" by (simp add: state_inv_def)
  have g1: "groups s1' gid = Some (g\<lparr>g_tombstone := True\<rparr>)" by (simp add: s1'_def s1)
  have rtrip: "map (f False \<circ> f True) (ops s) = ops s"
  proof -
    have "\<forall>x \<in> set (ops s). f False (f True x) = x"
    proof
      fix x assume x: "x \<in> set (ops s)"
      show "f False (f True x) = x"
      proof (cases "op_seq x \<in> set (g_seqs g)")
        case True
        then have "\<not> op_tombstone x" using members_relatedD [OF mr r(2) x] r(3) by simp
        then show ?thesis using True by (simp add: f_def)
      next
        case False
        then show ?thesis by (simp add: f_def)
      qed
    qed
    then show ?thesis by (intro map_idI) simp
  qed
  have gg: "g\<lparr>g_tombstone := False\<rparr> = g" using r(3) by simp
  have grp: "(groups s)(gid \<mapsto> g) = groups s" using r(2) by (rule map_upd_triv)
  have "snd (setGroupTombstone gid False s1') =
          s1'\<lparr>groups := (groups s1')(gid \<mapsto> g\<lparr>g_tombstone := True, g_tombstone := False\<rparr>),
              ops := map (f False) (ops s1')\<rparr>"
    using setGroupTombstone_Some [OF g1 li1, of False] by (simp add: f_def)
  also have "\<dots> = s\<lparr>undoStack := kept\<rparr>"
    using rtrip by (simp add: s1'_def s1 gg grp)
  finally have s2: "snd (setGroupTombstone gid False s1') = s\<lparr>undoStack := kept\<rparr>" .
  have "performRedo s1 = (Some gid, s\<lparr>undoStack := kept @ [gid]\<rparr>)"
    using g1 s2 by (subst performRedo.simps) (simp add: Let_def s1'_def [symmetric], simp add: s1)
  then show ?thesis using r s1 unfolding s1_def f_def by blast
qed

subsection \<open>Users\<close>

lemma performUndo_users: "users (snd (performUndo s)) = users s"
  using performUndo_result [of s] by (auto simp: setGroupTombstone_def split: option.splits)

lemma performRedo_users: "users (snd (performRedo s)) = users s"
  using performRedo_result [of s] by (auto simp: setGroupTombstone_def split: option.splits)

lemma checkQuorum_users: "users (checkQuorum uuid s) = users s"
  by (simp add: checkQuorum_def finalizeClear_eq)

lemma users_step:
  "users (step e s) = users s \<or>
   (\<exists>sid u. users (step e s) = AList.update sid u (users s)) \<or>
   (\<exists>sid. users (step e s) = AList.delete sid (users s))"
  by (cases e)
     (auto simp: connection_def Let_def client_op_def addOp_users client_undo_def client_redo_def
        performUndo_users performRedo_users clear_all_request_def clear_all_vote_def
        disconnect_def checkQuorum_users)

lemma users_distinct_run:
  "distinct (map fst (users s)) \<Longrightarrow> distinct (map fst (users (run s evs)))"
proof (induction evs arbitrary: s)
  case Nil
  then show ?case by simp
next
  case (Cons e es)
  have "distinct (map fst (users (step e s)))"
    using users_step [of e s] Cons.prems by (auto simp: distinct_update distinct_delete)
  then show ?case using Cons.IH by simp
qed

lemma connected_card: "card (connected (run init evs)) = length (users (run init evs))"
proof -
  have "distinct (map fst (users (run init evs)))"
    by (rule users_distinct_run) (simp add: init_def)
  then show ?thesis using distinct_card [of "map fst (users (run init evs))"] by (simp add: connected_def)
qed

lemma users_step_other:
  assumes "\<not> is_disconnect e" "\<forall>sid. e \<noteq> Connection sid"
  shows "users (step e s) = users s"
  using assms
  by (cases e)
     (simp_all add: client_op_def addOp_users client_undo_def client_redo_def
        performUndo_users performRedo_users clear_all_request_def clear_all_vote_def
        checkQuorum_users)

lemma connected_connection: "connected (connection sid s) = insert sid (connected s)"
proof -
  have "fst ` set (AList.update sid u al) = insert sid (fst ` set al)" for u :: user and al
    using dom_update [of sid u al] by (simp add: dom_map_of_conv_image_fst update_conv')
  then show ?thesis by (simp add: connected_def connection_def Let_def)
qed

lemma connected_run_no_disconnect:
  "\<forall>e \<in> set evs. \<not> is_disconnect e \<Longrightarrow> connected (run s evs) = connected s \<union> set (joined evs)"
proof (induction evs arbitrary: s)
  case Nil
  then show ?case by simp
next
  case (Cons e es)
  then have ih: "connected (run (step e s) es) = connected (step e s) \<union> set (joined es)" by simp
  show ?case
  proof (cases "\<exists>sid. e = Connection sid")
    case True
    then obtain sid where "e = Connection sid" by blast
    then show ?thesis using ih by (simp add: connected_connection)
  next
    case False
    then have "users (step e s) = users s" using users_step_other [of e s] Cons.prems by simp
    moreover have "joined (e # es) = joined es" using False by (cases e) simp_all
    ultimately show ?thesis using ih by (simp add: connected_def)
  qed
qed

subsection \<open>Stacks after a clear\<close>



lemma finalizeClear_stacks:
  "undoStack (finalizeClear uuid s) = [] \<and> redoStack (finalizeClear uuid s) = []"
  by (simp add: finalizeClear_eq)





subsection \<open>The vote's required count\<close>

lemma disconnect_lowers_required:
  "inProgress (vote s) \<Longrightarrow>
   totalAtStart (vote (disconnect uuid sid s)) = max (totalAtStart (vote s) - 1) 0"
  by (simp add: disconnect_def Let_def checkQuorum_def finalizeClear_eq)

subsection \<open>Replay\<close>

lemma applyOpToContext_opLog:
  "applyOpToContext x (c\<lparr>opLog := l\<rparr>) = (applyOpToContext x c)\<lparr>opLog := l\<rparr>"
  by (simp add: applyOpToContext_def Let_def)

lemma applyOpToContext_canvas:
  "applyOpToContext x (c\<lparr>canvas := v\<rparr>) = (applyOpToContext x c)\<lparr>canvas := v\<rparr>"
  by (simp add: applyOpToContext_def Let_def)

lemma replay_opLog:
  "foldl (\<lambda>c' x. if \<not> op_tombstone x then applyOpToContext x c' else c') (c\<lparr>opLog := l\<rparr>) xs =
   (foldl (\<lambda>c' x. if \<not> op_tombstone x then applyOpToContext x c' else c') c xs)\<lparr>opLog := l\<rparr>"
  by (induction xs arbitrary: c) (simp_all add: applyOpToContext_opLog)

lemma replay_keeps_opLog:
  "opLog (foldl (\<lambda>c' x. if \<not> op_tombstone x then applyOpToContext x c' else c') c xs) = opLog c"
  by (induction xs arbitrary: c) (simp_all add: applyOpToContext_def Let_def)

lemma fullReplay_opLog: "opLog (fullReplay c) = opLog c"
  by (simp add: fullReplay_def blit_def replay_keeps_opLog)

lemma incremental_is_replay:
  assumes "\<not> op_tombstone x"
  shows "blit (applyOpToContext x ((fullReplay c)\<lparr>opLog := opLog c @ [x]\<rparr>)) =
         fullReplay (c\<lparr>opLog := opLog c @ [x]\<rparr>)"
proof -
  define c0 where "c0 = c\<lparr>offscreen := [], lastSeg := Map.empty, currBrush := Map.empty\<rparr>"
  define F where
    "F = foldl (\<lambda>c' x. if \<not> op_tombstone x then applyOpToContext x c' else c') c0 (opLog c)"
  have r: "(c\<lparr>opLog := opLog c @ [x]\<rparr>)\<lparr>offscreen := [], lastSeg := Map.empty, currBrush := Map.empty\<rparr>
           = c0\<lparr>opLog := opLog c @ [x]\<rparr>"
    by (simp add: c0_def)
  have "fullReplay (c\<lparr>opLog := opLog c @ [x]\<rparr>) =
        blit (applyOpToContext x (F\<lparr>opLog := opLog c @ [x]\<rparr>))"
    unfolding fullReplay_def r using assms by (simp add: replay_opLog F_def)
  moreover have "fullReplay c = blit F" by (simp add: fullReplay_def F_def c0_def)
  ultimately show ?thesis
    by (simp add: blit_def applyOpToContext_opLog applyOpToContext_canvas)
qed

lemma replay_canvas:
  "foldl (\<lambda>c' x. if \<not> op_tombstone x then applyOpToContext x c' else c') (c\<lparr>canvas := v\<rparr>) xs =
   (foldl (\<lambda>c' x. if \<not> op_tombstone x then applyOpToContext x c' else c') c xs)\<lparr>canvas := v\<rparr>"
  by (induction xs arbitrary: c) (simp_all add: applyOpToContext_canvas)

lemma fullReplay_only_log: "fullReplay c = fullReplay (newClient\<lparr>opLog := opLog c\<rparr>)"
proof -
  have "c\<lparr>offscreen := [], lastSeg := Map.empty, currBrush := Map.empty\<rparr> =
        (newClient\<lparr>opLog := opLog c\<rparr>)\<lparr>canvas := canvas c\<rparr>"
    by (simp add: newClient_def)
  then have "fullReplay c =
    blit ((foldl (\<lambda>c' x. if \<not> op_tombstone x then applyOpToContext x c' else c')
            (newClient\<lparr>opLog := opLog c\<rparr>) (opLog c))\<lparr>canvas := canvas c\<rparr>)"
    by (simp add: fullReplay_def replay_canvas)
  then show ?thesis by (simp add: fullReplay_def blit_def newClient_def)
qed

lemma applyOp_is_replay: "applyOp x (fullReplay c) = fullReplay (c\<lparr>opLog := opLog c @ [x]\<rparr>)"
proof (cases "op_tombstone x \<or> op_kind x = ''system:clear_all'' \<or> endsWith (op_kind x) '':end''")
  case True
  then have "applyOp x (fullReplay c) = fullReplay ((fullReplay c)\<lparr>opLog := opLog c @ [x]\<rparr>)"
    by (simp add: applyOp_def Let_def fullReplay_opLog)
  also have "\<dots> = fullReplay (c\<lparr>opLog := opLog c @ [x]\<rparr>)"
    using fullReplay_only_log [of "(fullReplay c)\<lparr>opLog := opLog c @ [x]\<rparr>"]
      fullReplay_only_log [of "c\<lparr>opLog := opLog c @ [x]\<rparr>"] by simp
  finally show ?thesis .
next
  case False
  then have "applyOp x (fullReplay c) =
               blit (applyOpToContext x ((fullReplay c)\<lparr>opLog := opLog c @ [x]\<rparr>))"
    by (simp add: applyOp_def Let_def fullReplay_opLog)
  then show ?thesis using incremental_is_replay [of x c] False by simp
qed

lemma received_is_replay:
  "received ys (fullReplay c) = fullReplay (c\<lparr>opLog := opLog c @ ys\<rparr>)"
proof (induction ys arbitrary: c)
  case Nil
  then show ?case by (simp add: received_def)
next
  case (Cons y ys)
  have "received (y # ys) (fullReplay c) = received ys (applyOp y (fullReplay c))"
    by (simp add: received_def)
  also have "\<dots> = received ys (fullReplay (c\<lparr>opLog := opLog c @ [y]\<rparr>))"
    by (simp add: applyOp_is_replay)
  also have "\<dots> = fullReplay (c\<lparr>opLog := opLog c @ y # ys\<rparr>)"
    using Cons.IH [of "c\<lparr>opLog := opLog c @ [y]\<rparr>"] by simp
  finally show ?case .
qed

subsection \<open>Evaluation\<close>

lemmas eval_defs =
  client_op_def mintGroupId_def addOp_def Let_def endsWith_eval startsWith_def truthy_def init_def
  sample_data_def client_undo_def client_redo_def setGroupTombstone_def performUndo.simps
  performRedo.simps finalizeClear_eq SYSTEM_CLEAR_DATA_def connection_def clear_all_request_def
  clear_all_vote_def disconnect_def checkQuorum_def set_add_def nextColor_def fresh_def
  live_target_def connected_def

section \<open>Properties of the specification\<close>

text \<open>
  C1, evaluated on the code. In the run \<open>clear_mid_stroke\<close> the group of the stroke is
  tombstoned by the clear-all; the point and the end that follow are appended to its member
  list with their own flags unset, so the group's flag and the flags of two of its members
  differ. The group is pushed on the undo stack, and an undo discards it and returns
  \<^verbatim>\<open>null\<close>: the two operations cannot be undone.
\<close>

theorem C1_live_members_of_tombstoned_group:
  "groups (run init clear_mid_stroke) (Str ''g1'') =
     Some \<lparr>g_kind = ''stroke:start'', g_by = Str ''a'', g_seqs = [1, 3, 4], g_tombstone = True\<rparr>
   \<and> map op_seq (ops (run init clear_mid_stroke)) = [1, 2, 3, 4]
   \<and> map op_tombstone (ops (run init clear_mid_stroke)) = [True, False, False, False]
   \<and> undoStack (run init clear_mid_stroke) = [Str ''g1'']
   \<and> fst (performUndo (run init clear_mid_stroke)) = None"
proof -
  define G where
    "G = \<lparr>g_kind = ''stroke:start'', g_by = Str ''a'', g_seqs = [1, 3, 4], g_tombstone = True\<rparr>"
  have h1: "groups (run init clear_mid_stroke) (Str ''g1'') = Some G"
    by (simp add: clear_mid_stroke_def G_def eval_defs)
  have h2: "map op_seq (ops (run init clear_mid_stroke)) = [1, 2, 3, 4]"
    by (simp add: clear_mid_stroke_def eval_defs)
  have h3: "map op_tombstone (ops (run init clear_mid_stroke)) = [True, False, False, False]"
    by (simp add: clear_mid_stroke_def eval_defs)
  have h4: "undoStack (run init clear_mid_stroke) = [Str ''g1'']"
    by (simp add: clear_mid_stroke_def eval_defs)
  have h5: "fst (performUndo (run init clear_mid_stroke)) = None"
    by (simp add: clear_mid_stroke_def eval_defs)
  show ?thesis using h1 h2 h3 h4 h5 unfolding G_def by blast
qed

text \<open>
  C2. For every sequence of handler invocations, and so for every sequence of appends to the
  log, the sequence numbers of the log are strictly increasing in append order and pairwise
  distinct.
\<close>

theorem C2_sequence_numbers_strictly_increasing:
  "sorted_wrt (<) (map op_seq (ops (run init evs))) \<and> distinct (map op_seq (ops (run init evs)))"
proof -
  have "log_inv (run init evs)" by (rule log_inv_run [OF log_inv_init])
  then have "sorted_wrt (<) (map op_seq (ops (run init evs)))" by (simp add: log_inv_def)
  then show ?thesis by (auto simp: strict_sorted_iff)
qed

text \<open>
  C3, as the code has it. Take the state a replay of any log leaves, followed by any
  operations received from the server since, with no local preview drawn in between. A new
  point operation that is not tombstoned takes the incremental path there, and the client
  state after it, both surfaces included, is the state a full replay of the log with the
  operation appended produces.
\<close>

theorem C3_incremental_equals_full_replay:
  assumes "\<not> op_tombstone x" and "endsWith (op_kind x) '':point''"
  shows "applyOp x (received ys (fullReplay c)) =
           blit (applyOpToContext x
                  ((received ys (fullReplay c))\<lparr>opLog := opLog (received ys (fullReplay c)) @ [x]\<rparr>))
         \<and> applyOp x (received ys (fullReplay c)) =
           fullReplay ((received ys (fullReplay c))
                          \<lparr>opLog := opLog (received ys (fullReplay c)) @ [x]\<rparr>)"
proof -
  define c' where "c' = c\<lparr>opLog := opLog c @ ys\<rparr>"
  have r: "received ys (fullReplay c) = fullReplay c'" by (simp add: c'_def received_is_replay)
  have k: "op_kind x \<noteq> ''system:clear_all''" "\<not> endsWith (op_kind x) '':end''"
    using assms(2) clear_all_kind(2) endsWith_point_not_end by auto
  have a: "applyOp x (fullReplay c') =
           blit (applyOpToContext x ((fullReplay c')\<lparr>opLog := opLog (fullReplay c') @ [x]\<rparr>))"
    using assms(1) k by (simp add: applyOp_def Let_def)
  have "fullReplay ((fullReplay c')\<lparr>opLog := opLog (fullReplay c') @ [x]\<rparr>) =
        fullReplay (c'\<lparr>opLog := opLog c' @ [x]\<rparr>)"
    using fullReplay_only_log [of "(fullReplay c')\<lparr>opLog := opLog (fullReplay c') @ [x]\<rparr>"]
      fullReplay_only_log [of "c'\<lparr>opLog := opLog c' @ [x]\<rparr>"] by (simp add: fullReplay_opLog)
  then have b: "applyOp x (fullReplay c') =
        fullReplay ((fullReplay c')\<lparr>opLog := opLog (fullReplay c') @ [x]\<rparr>)"
    by (simp add: applyOp_is_replay)
  show ?thesis unfolding r using a b by blast
qed

theorem C3_witness:
  "\<not> op_tombstone (sample_op ''stroke:point'' ''a'' 5 5)
   \<and> endsWith (op_kind (sample_op ''stroke:point'' ''a'' 5 5)) '':point''
   \<and> offscreen (applyOp (sample_op ''stroke:point'' ''a'' 5 5)
        (received [sample_op ''stroke:start'' ''a'' 1 1] (fullReplay newClient))) =
       [\<lparr>globalCompositeOperation = ''source-over'', strokeStyle = ''#222'', lineWidth = 4,
         moveTo = \<lparr>px = 1, py = 1, pt = 0\<rparr>, lineTo = \<lparr>px = 5, py = 5, pt = 0\<rparr>\<rparr>]
   \<and> offscreen (fullReplay ((received [sample_op ''stroke:start'' ''a'' 1 1] (fullReplay newClient))
        \<lparr>opLog := opLog (received [sample_op ''stroke:start'' ''a'' 1 1] (fullReplay newClient))
                   @ [sample_op ''stroke:point'' ''a'' 5 5]\<rparr>)) =
       [\<lparr>globalCompositeOperation = ''source-over'', strokeStyle = ''#222'', lineWidth = 4,
         moveTo = \<lparr>px = 1, py = 1, pt = 0\<rparr>, lineTo = \<lparr>px = 5, py = 5, pt = 0\<rparr>\<rparr>]"
proof -
  have h1: "\<not> op_tombstone (sample_op ''stroke:point'' ''a'' 5 5)" by (simp add: sample_op_def)
  have h2: "endsWith (op_kind (sample_op ''stroke:point'' ''a'' 5 5)) '':point''"
    by (simp add: sample_op_def endsWith_eval)
  have e: "offscreen (fullReplay ((received [sample_op ''stroke:start'' ''a'' 1 1] (fullReplay newClient))
        \<lparr>opLog := opLog (received [sample_op ''stroke:start'' ''a'' 1 1] (fullReplay newClient))
                   @ [sample_op ''stroke:point'' ''a'' 5 5]\<rparr>)) =
       [\<lparr>globalCompositeOperation = ''source-over'', strokeStyle = ''#222'', lineWidth = 4,
         moveTo = \<lparr>px = 1, py = 1, pt = 0\<rparr>, lineTo = \<lparr>px = 5, py = 5, pt = 0\<rparr>\<rparr>]"
    by (simp add: received_def applyOp_def fullReplay_def blit_def newClient_def sample_op_def
        applyOpToContext_def Let_def endsWith_eval startsWith_def truthy_def defaultBrush_def
        drawSegment_def)
  from C3_incremental_equals_full_replay [OF h1 h2, of "[sample_op ''stroke:start'' ''a'' 1 1]" newClient,
      THEN conjunct2]
  have "offscreen (applyOp (sample_op ''stroke:point'' ''a'' 5 5)
        (received [sample_op ''stroke:start'' ''a'' 1 1] (fullReplay newClient))) =
     offscreen (fullReplay ((received [sample_op ''stroke:start'' ''a'' 1 1] (fullReplay newClient))
        \<lparr>opLog := opLog (received [sample_op ''stroke:start'' ''a'' 1 1] (fullReplay newClient))
                   @ [sample_op ''stroke:point'' ''a'' 5 5]\<rparr>))"
    by (rule arg_cong)
  then show ?thesis using h1 h2 e by (simp only: simp_thms)
qed

text \<open>
  C3 as stated fails. The local user has pressed the button and moved the pointer: the
  segment of the preview is on the off-screen canvas and in no logged operation. A point
  operation of another user, received now, is drawn incrementally beside it; a full replay
  of the log with that operation draws the other user's segment alone.
\<close>

theorem C3_counterexample:
  "\<not> op_tombstone (sample_op ''stroke:point'' ''b'' 9 9)
   \<and> endsWith (op_kind (sample_op ''stroke:point'' ''b'' 9 9)) '':point''
   \<and> offscreen (applyOp (sample_op ''stroke:point'' ''b'' 9 9) previewing) =
       [\<lparr>globalCompositeOperation = ''source-over'', strokeStyle = ''#222222'', lineWidth = 4,
         moveTo = \<lparr>px = 1, py = 7, pt = 0\<rparr>, lineTo = \<lparr>px = 5, py = 2, pt = 0\<rparr>\<rparr>,
        \<lparr>globalCompositeOperation = ''source-over'', strokeStyle = ''#222'', lineWidth = 4,
         moveTo = \<lparr>px = 0, py = 0, pt = 0\<rparr>, lineTo = \<lparr>px = 9, py = 9, pt = 0\<rparr>\<rparr>]
   \<and> offscreen (fullReplay
        (previewing\<lparr>opLog := opLog previewing @ [sample_op ''stroke:point'' ''b'' 9 9]\<rparr>)) =
       [\<lparr>globalCompositeOperation = ''source-over'', strokeStyle = ''#222'', lineWidth = 4,
         moveTo = \<lparr>px = 0, py = 0, pt = 0\<rparr>, lineTo = \<lparr>px = 9, py = 9, pt = 0\<rparr>\<rparr>]
   \<and> map op_id (opLog previewing) = [''p'', ''local'']"
  by (simp add: previewing_def down_def move_def initPointerHandlers_def mainBrush_def mouse_at_def
      fullReplay_def applyOp_def blit_def newClient_def sample_op_def applyOpToContext_def
      Let_def endsWith_eval startsWith_def truthy_def defaultBrush_def drawSegment_def)

text \<open>
  C4. In every reachable state in which undo succeeds on a group, the group was not
  tombstoned, the undo tombstones it and puts it on top of the redo stack, and the redo that
  follows returns the same group, puts it back on top of the undo stack and restores groups,
  log (every tombstone flag included) and redo stack to what they were before the undo; the
  undo stack differs only by the invalid entries the undo discarded on its way. A replay of
  the log therefore draws the same surface as before the undo.
\<close>

theorem C4_undo_then_redo:
  assumes "fst (performUndo (run init evs)) = Some gid"
  shows "(\<exists>g. groups (run init evs) gid = Some g \<and> \<not> g_tombstone g) \<and>
         (\<exists>g1. groups (snd (performUndo (run init evs))) gid = Some g1 \<and> g_tombstone g1) \<and>
         redoStack (snd (performUndo (run init evs))) = redoStack (run init evs) @ [gid] \<and>
         fst (performRedo (snd (performUndo (run init evs)))) = Some gid \<and>
         groups (snd (performRedo (snd (performUndo (run init evs))))) = groups (run init evs) \<and>
         ops (snd (performRedo (snd (performUndo (run init evs))))) = ops (run init evs) \<and>
         redoStack (snd (performRedo (snd (performUndo (run init evs))))) = redoStack (run init evs) \<and>
         undoStack (snd (performRedo (snd (performUndo (run init evs))))) =
           undoStack (snd (performUndo (run init evs))) @ [gid] \<and>
         (\<exists>skipped. undoStack (run init evs) =
            undoStack (snd (performRedo (snd (performUndo (run init evs))))) @ skipped) \<and>
         fullReplay (c\<lparr>opLog := ops (snd (performRedo (snd (performUndo (run init evs)))))\<rparr>) =
           fullReplay (c\<lparr>opLog := ops (run init evs)\<rparr>)"
proof -
  define s where "s = run init evs"
  have inv: "state_inv (\<lambda>gt ot. \<not> gt \<longrightarrow> \<not> ot) s" unfolding s_def by (rule live_run)
  from undo_redo_roundtrip [OF inv] assms obtain g kept skipped where
    r: "groups s gid = Some g" "\<not> g_tombstone g" "undoStack s = kept @ [gid] @ skipped"
       "snd (performUndo s) =
             s\<lparr>groups := (groups s)(gid \<mapsto> g\<lparr>g_tombstone := True\<rparr>),
               ops := map (\<lambda>x. if op_seq x \<in> set (g_seqs g) then x\<lparr>op_tombstone := True\<rparr> else x)
                          (ops s),
               redoStack := redoStack s @ [gid], undoStack := kept\<rparr>"
       "performRedo (snd (performUndo s)) = (Some gid, s\<lparr>undoStack := kept @ [gid]\<rparr>)"
    unfolding s_def by blast
  show ?thesis
    unfolding s_def [symmetric] r(5) using r(1,2,3) by (simp add: r(4))
qed

theorem C4_witness:
  "fst (performUndo (run init
      [ClientOp ''g'' ''o1'' ''stroke:start'' (sample_data (Str ''a'') (Str ''g1'')),
       ClientOp ''g'' ''o2'' ''stroke:end'' (sample_data (Str ''a'') (Str ''g1''))])) = Some (Str ''g1'')
   \<and> fst (performRedo (snd (performUndo (run init
      [ClientOp ''g'' ''o1'' ''stroke:start'' (sample_data (Str ''a'') (Str ''g1'')),
       ClientOp ''g'' ''o2'' ''stroke:end'' (sample_data (Str ''a'') (Str ''g1''))])))) = Some (Str ''g1'')
   \<and> ops (snd (performRedo (snd (performUndo (run init
      [ClientOp ''g'' ''o1'' ''stroke:start'' (sample_data (Str ''a'') (Str ''g1'')),
       ClientOp ''g'' ''o2'' ''stroke:end'' (sample_data (Str ''a'') (Str ''g1''))]))))) =
     ops (run init
      [ClientOp ''g'' ''o1'' ''stroke:start'' (sample_data (Str ''a'') (Str ''g1'')),
       ClientOp ''g'' ''o2'' ''stroke:end'' (sample_data (Str ''a'') (Str ''g1''))])"
proof -
  have h: "fst (performUndo (run init
      [ClientOp ''g'' ''o1'' ''stroke:start'' (sample_data (Str ''a'') (Str ''g1'')),
       ClientOp ''g'' ''o2'' ''stroke:end'' (sample_data (Str ''a'') (Str ''g1''))])) = Some (Str ''g1'')"
    by (simp add: eval_defs)
  from C4_undo_then_redo [OF h] h show ?thesis by blast
qed

text \<open>
  C5, evaluated on the code. Three users are connected; the first requests the clear-all
  and disconnects. The vote is still pending with a required count of two, and its yes-set
  holds only the user who has left. When the second user votes yes the count is met and the
  clear-all is finalized, although the third user, still connected, has not voted.
\<close>

theorem C5_departed_voter_counted:
  "inProgress (vote (run init
      [Connection ''a'', Connection ''b'', Connection ''c'', ClearAllRequest ''o1'' ''a'',
       Disconnect ''o2'' ''a'']))
   \<and> totalAtStart (vote (run init
      [Connection ''a'', Connection ''b'', Connection ''c'', ClearAllRequest ''o1'' ''a'',
       Disconnect ''o2'' ''a''])) = 2
   \<and> yes (vote (run init
      [Connection ''a'', Connection ''b'', Connection ''c'', ClearAllRequest ''o1'' ''a'',
       Disconnect ''o2'' ''a''])) = [''a'']
   \<and> ''a'' \<notin> connected (run init
      [Connection ''a'', Connection ''b'', Connection ''c'', ClearAllRequest ''o1'' ''a'',
       Disconnect ''o2'' ''a''])
   \<and> \<not> inProgress (vote (run init
      [Connection ''a'', Connection ''b'', Connection ''c'', ClearAllRequest ''o1'' ''a'',
       Disconnect ''o2'' ''a'', ClearAllVote ''o3'' ''b'' True]))
   \<and> map op_kind (ops (run init
      [Connection ''a'', Connection ''b'', Connection ''c'', ClearAllRequest ''o1'' ''a'',
       Disconnect ''o2'' ''a'', ClearAllVote ''o3'' ''b'' True])) = [''system:clear_all'']
   \<and> yes (vote (run init
      [Connection ''a'', Connection ''b'', Connection ''c'', ClearAllRequest ''o1'' ''a'',
       Disconnect ''o2'' ''a'', ClearAllVote ''o3'' ''b'' True])) = [''a'', ''b'']
   \<and> ''c'' \<in> connected (run init
      [Connection ''a'', Connection ''b'', Connection ''c'', ClearAllRequest ''o1'' ''a'',
       Disconnect ''o2'' ''a'', ClearAllVote ''o3'' ''b'' True])"
  by (simp add: eval_defs AList.delete_eq)



text \<open>
  C7, as the code has it. Finalizing a clear-all empties both stacks: the append of the
  clear-all marker sets the length of the undo stack and of the redo stack to zero.
\<close>

theorem C7_finalize_clears_stacks:
  "undoStack (finalizeClear uuid s) = [] \<and> redoStack (finalizeClear uuid s) = []"
  by (rule finalizeClear_stacks)

text \<open>
  C7 as stated fails: with one completed stroke on the undo stack, the stack after the
  finalize differs from the stack before it.
\<close>

theorem C7_counterexample:
  "undoStack (run init
      [ClientOp ''g'' ''o1'' ''stroke:start'' (sample_data (Str ''a'') (Str ''g1'')),
       ClientOp ''g'' ''o2'' ''stroke:end'' (sample_data (Str ''a'') (Str ''g1''))]) = [Str ''g1'']
   \<and> undoStack (finalizeClear ''o3'' (run init
      [ClientOp ''g'' ''o1'' ''stroke:start'' (sample_data (Str ''a'') (Str ''g1'')),
       ClientOp ''g'' ''o2'' ''stroke:end'' (sample_data (Str ''a'') (Str ''g1''))])) = []"
  by (simp add: finalizeClear_stacks) (simp add: eval_defs)

text \<open>
  C8, as the code has it. A point operation whose user has no cached last point draws
  nothing, in a replay and on the incremental path alike; its only effect is that its point
  becomes the cached last point of its user (an operation without a user has no effect).
  The next point operation of that user, when no brush is cached, is drawn from that point
  with the default brush.
\<close>

theorem C8_orphan_point_draws_nothing:
  assumes "endsWith (op_kind x) '':point''"
    and "lastSeg c (d_userId (op_data x)) = None"
  shows "applyOpToContext x c =
           (if truthy (d_userId (op_data x))
            then c\<lparr>lastSeg := (lastSeg c)(d_userId (op_data x) := d_p (op_data x))\<rparr> else c)
         \<and> offscreen (applyOpToContext x c) = offscreen c
         \<and> (\<not> op_tombstone x \<longrightarrow> offscreen (applyOp x c) = offscreen c)
         \<and> (truthy (d_userId (op_data x)) \<and> currBrush c (d_userId (op_data x)) = None \<and>
            endsWith (op_kind y) '':point'' \<and> d_userId (op_data y) = d_userId (op_data x) \<longrightarrow>
              offscreen (applyOpToContext y (applyOpToContext x c)) =
                drawSegment (offscreen c) (d_p (op_data x)) (d_p (op_data y))
                  (b_width (defaultBrush (op_kind y))) (b_color (defaultBrush (op_kind y)))
                  (b_mode (defaultBrush (op_kind y))))"
proof -
  have k: "\<not> endsWith (op_kind x) '':start''" "op_kind x \<noteq> ''system:clear_all''"
    "\<not> endsWith (op_kind x) '':end''"
    using assms(1) clear_all_kind(2) endsWith_point_not_end endsWith_point_not_start by auto
  have a: "applyOpToContext x c =
           (if truthy (d_userId (op_data x))
            then c\<lparr>lastSeg := (lastSeg c)(d_userId (op_data x) := d_p (op_data x))\<rparr> else c)"
    using assms k by (simp add: applyOpToContext_def Let_def drawSegment_def)
  have b: "\<not> op_tombstone x \<longrightarrow> offscreen (applyOp x c) = offscreen c"
    using k a
    by (simp add: applyOp_def Let_def blit_def applyOpToContext_opLog)
  have d: "truthy (d_userId (op_data x)) \<and> currBrush c (d_userId (op_data x)) = None \<and>
            endsWith (op_kind y) '':point'' \<and> d_userId (op_data y) = d_userId (op_data x) \<longrightarrow>
              offscreen (applyOpToContext y (applyOpToContext x c)) =
                drawSegment (offscreen c) (d_p (op_data x)) (d_p (op_data y))
                  (b_width (defaultBrush (op_kind y))) (b_color (defaultBrush (op_kind y)))
                  (b_mode (defaultBrush (op_kind y)))"
  proof
    assume h: "truthy (d_userId (op_data x)) \<and> currBrush c (d_userId (op_data x)) = None \<and>
            endsWith (op_kind y) '':point'' \<and> d_userId (op_data y) = d_userId (op_data x)"
    then have ky: "\<not> endsWith (op_kind y) '':start''"
      using endsWith_point_not_start by blast
    have "applyOpToContext x c =
            c\<lparr>lastSeg := (lastSeg c)(d_userId (op_data x) := d_p (op_data x))\<rparr>"
      using a h by simp
    then show "offscreen (applyOpToContext y (applyOpToContext x c)) =
                drawSegment (offscreen c) (d_p (op_data x)) (d_p (op_data y))
                  (b_width (defaultBrush (op_kind y))) (b_color (defaultBrush (op_kind y)))
                  (b_mode (defaultBrush (op_kind y)))"
      using h ky by (simp add: applyOpToContext_def [of y] Let_def)
  qed
  show ?thesis using a b d by simp
qed

theorem C8_witness:
  "endsWith (op_kind (sample_op ''stroke:point'' ''a'' 1 1)) '':point''
   \<and> lastSeg newClient (d_userId (op_data (sample_op ''stroke:point'' ''a'' 1 1))) = None
   \<and> offscreen (applyOpToContext (sample_op ''stroke:point'' ''a'' 1 1) newClient) = []
   \<and> lastSeg (applyOpToContext (sample_op ''stroke:point'' ''a'' 1 1) newClient) (Str ''a'') =
       Some \<lparr>px = 1, py = 1, pt = 0\<rparr>
   \<and> offscreen (applyOpToContext (sample_op ''stroke:point'' ''a'' 5 5)
                  (applyOpToContext (sample_op ''stroke:point'' ''a'' 1 1) newClient)) =
       [\<lparr>globalCompositeOperation = ''source-over'', strokeStyle = ''#222'', lineWidth = 4,
         moveTo = \<lparr>px = 1, py = 1, pt = 0\<rparr>, lineTo = \<lparr>px = 5, py = 5, pt = 0\<rparr>\<rparr>]"
proof -
  have h1: "endsWith (op_kind (sample_op ''stroke:point'' ''a'' 1 1)) '':point''"
    by (simp add: sample_op_def endsWith_eval)
  have h2: "lastSeg newClient (d_userId (op_data (sample_op ''stroke:point'' ''a'' 1 1))) = None"
    by (simp add: newClient_def)
  have h3: "truthy (d_userId (op_data (sample_op ''stroke:point'' ''a'' 1 1))) \<and>
            currBrush newClient (d_userId (op_data (sample_op ''stroke:point'' ''a'' 1 1))) = None \<and>
            endsWith (op_kind (sample_op ''stroke:point'' ''a'' 5 5)) '':point'' \<and>
            d_userId (op_data (sample_op ''stroke:point'' ''a'' 5 5)) =
              d_userId (op_data (sample_op ''stroke:point'' ''a'' 1 1))"
    by (simp add: sample_op_def endsWith_eval truthy_def newClient_def)
  note t = C8_orphan_point_draws_nothing [OF h1 h2, of "sample_op ''stroke:point'' ''a'' 5 5"]
  have e1: "applyOpToContext (sample_op ''stroke:point'' ''a'' 1 1) newClient =
          (if truthy (d_userId (op_data (sample_op ''stroke:point'' ''a'' 1 1)))
           then newClient\<lparr>lastSeg := (lastSeg newClient)
             (d_userId (op_data (sample_op ''stroke:point'' ''a'' 1 1)) :=
                d_p (op_data (sample_op ''stroke:point'' ''a'' 1 1)))\<rparr>
           else newClient)"
    using t by (rule conjunct1)
  have e2: "offscreen (applyOpToContext (sample_op ''stroke:point'' ''a'' 5 5)
                  (applyOpToContext (sample_op ''stroke:point'' ''a'' 1 1) newClient)) =
          drawSegment (offscreen newClient) (d_p (op_data (sample_op ''stroke:point'' ''a'' 1 1)))
            (d_p (op_data (sample_op ''stroke:point'' ''a'' 5 5)))
            (b_width (defaultBrush (op_kind (sample_op ''stroke:point'' ''a'' 5 5))))
            (b_color (defaultBrush (op_kind (sample_op ''stroke:point'' ''a'' 5 5))))
            (b_mode (defaultBrush (op_kind (sample_op ''stroke:point'' ''a'' 5 5))))"
    using t h3 by blast
  have c3: "offscreen (applyOpToContext (sample_op ''stroke:point'' ''a'' 1 1) newClient) = []"
    unfolding e1 by (simp add: sample_op_def newClient_def truthy_def)
  have c4: "lastSeg (applyOpToContext (sample_op ''stroke:point'' ''a'' 1 1) newClient) (Str ''a'') =
       Some \<lparr>px = 1, py = 1, pt = 0\<rparr>"
    unfolding e1 by (simp add: sample_op_def newClient_def truthy_def)
  have c5: "offscreen (applyOpToContext (sample_op ''stroke:point'' ''a'' 5 5)
                  (applyOpToContext (sample_op ''stroke:point'' ''a'' 1 1) newClient)) =
       [\<lparr>globalCompositeOperation = ''source-over'', strokeStyle = ''#222'', lineWidth = 4,
         moveTo = \<lparr>px = 1, py = 1, pt = 0\<rparr>, lineTo = \<lparr>px = 5, py = 5, pt = 0\<rparr>\<rparr>]"
    unfolding e2
    by (simp add: sample_op_def newClient_def drawSegment_def defaultBrush_def startsWith_def)
  show ?thesis using h1 h2 c3 c4 c5 by blast
qed

text \<open>
  C8 as stated fails. With no start tracked for the user, the first point operation is not
  skipped entirely, since it changes the cached state, and the second one is drawn from it
  with the default brush, in a replay and on the incremental path alike.
\<close>

theorem C8_counterexample:
  "lastSeg newClient (Str ''a'') = None \<and> currBrush newClient (Str ''a'') = None
   \<and> applyOpToContext (sample_op ''stroke:point'' ''a'' 1 1) newClient \<noteq> newClient
   \<and> offscreen (fullReplay (newClient\<lparr>opLog := [sample_op ''stroke:point'' ''a'' 1 1,
                                                 sample_op ''stroke:point'' ''a'' 5 5]\<rparr>)) =
       [\<lparr>globalCompositeOperation = ''source-over'', strokeStyle = ''#222'', lineWidth = 4,
         moveTo = \<lparr>px = 1, py = 1, pt = 0\<rparr>, lineTo = \<lparr>px = 5, py = 5, pt = 0\<rparr>\<rparr>]
   \<and> offscreen (applyOp (sample_op ''stroke:point'' ''a'' 5 5)
                 (applyOp (sample_op ''stroke:point'' ''a'' 1 1) newClient)) =
       [\<lparr>globalCompositeOperation = ''source-over'', strokeStyle = ''#222'', lineWidth = 4,
         moveTo = \<lparr>px = 1, py = 1, pt = 0\<rparr>, lineTo = \<lparr>px = 5, py = 5, pt = 0\<rparr>\<rparr>]"
proof -
  have "lastSeg (applyOpToContext (sample_op ''stroke:point'' ''a'' 1 1) newClient) (Str ''a'') \<noteq>
        lastSeg newClient (Str ''a'')"
    by (simp add: newClient_def sample_op_def applyOpToContext_def Let_def
        endsWith_eval startsWith_def truthy_def defaultBrush_def drawSegment_def)
  then have "applyOpToContext (sample_op ''stroke:point'' ''a'' 1 1) newClient \<noteq> newClient"
    by auto
  then show ?thesis
    by (simp add: fullReplay_def applyOp_def blit_def newClient_def sample_op_def applyOpToContext_def
        Let_def endsWith_eval startsWith_def truthy_def defaultBrush_def drawSegment_def)
qed

text \<open>
  C9, as the code has it. A joining user receives the palette entry selected by the number
  of users connected at that moment, modulo the palette size. As long as no user has
  disconnected, that number is the number of users that have joined before.
\<close>

theorem C9_color_by_connected_count:
  "map_of (users (connection sid (run init evs))) sid =
     Some \<lparr>u_id = sid, u_color = COLORS ! (card (connected (run init evs)) mod length COLORS)\<rparr>
   \<and> ((\<forall>e \<in> set evs. \<not> is_disconnect e) \<and> distinct (joined evs) \<longrightarrow>
        card (connected (run init evs)) = length (joined evs))"
proof -
  have a: "map_of (users (connection sid (run init evs))) sid =
     Some \<lparr>u_id = sid, u_color = COLORS ! (card (connected (run init evs)) mod length COLORS)\<rparr>"
    by (simp add: connection_def Let_def update_conv' nextColor_def connected_card)
  have b: "(\<forall>e \<in> set evs. \<not> is_disconnect e) \<and> distinct (joined evs) \<longrightarrow>
        card (connected (run init evs)) = length (joined evs)"
  proof
    assume h: "(\<forall>e \<in> set evs. \<not> is_disconnect e) \<and> distinct (joined evs)"
    then have "connected (run init evs) = set (joined evs)"
      using connected_run_no_disconnect [of evs init] by (simp add: connected_def init_def)
    then show "card (connected (run init evs)) = length (joined evs)"
      using h by (simp add: distinct_card)
  qed
  show ?thesis using a b by blast
qed

theorem C9_witness:
  "\<not> is_disconnect (Connection ''a'') \<and> \<not> is_disconnect (Connection ''b'')
   \<and> distinct (joined [Connection ''a'', Connection ''b''])
   \<and> card (connected (run init [Connection ''a'', Connection ''b''])) = 2
   \<and> map_of (users (connection ''c'' (run init [Connection ''a'', Connection ''b'']))) ''c'' =
       Some \<lparr>u_id = ''c'', u_color = ''#009688''\<rparr>"
proof -
  have h1: "\<not> is_disconnect (Connection ''a'')" "\<not> is_disconnect (Connection ''b'')"
    by simp_all
  have h2: "distinct (joined [Connection ''a'', Connection ''b''])" by simp
  have h: "(\<forall>e \<in> set [Connection ''a'', Connection ''b'']. \<not> is_disconnect e) \<and>
           distinct (joined [Connection ''a'', Connection ''b''])"
    using h1 h2 by simp
  note t = C9_color_by_connected_count [of "''c''" "[Connection ''a'', Connection ''b'']"]
  have c0: "card (connected (run init [Connection ''a'', Connection ''b''])) =
            length (joined [Connection ''a'', Connection ''b''])"
    by (rule mp [OF conjunct2 [OF t] h])
  have c: "card (connected (run init [Connection ''a'', Connection ''b''])) = 2"
    by (subst c0) simp
  have m: "map_of (users (connection ''c'' (run init [Connection ''a'', Connection ''b'']))) ''c'' =
       Some \<lparr>u_id = ''c'', u_color = COLORS !
         (card (connected (run init [Connection ''a'', Connection ''b''])) mod length COLORS)\<rparr>"
    by (rule conjunct1 [OF t])
  have "map_of (users (connection ''c'' (run init [Connection ''a'', Connection ''b'']))) ''c'' =
       Some \<lparr>u_id = ''c'', u_color = ''#009688''\<rparr>"
    by (subst m, subst c) (simp add: COLORS_def)
  then show ?thesis using h1 h2 c by blast
qed

text \<open>
  C9 as stated fails: after one of two users has left, the third user ever to join receives
  the second palette entry, the colour of a user who is still connected.
\<close>

theorem C9_counterexample:
  "map_of (users (run init [Connection ''a'', Connection ''b'', Disconnect ''o1'' ''a'',
                            Connection ''c''])) ''c''
     = Some \<lparr>u_id = ''c'', u_color = COLORS ! 1\<rparr>
   \<and> map_of (users (run init [Connection ''a'', Connection ''b'', Disconnect ''o1'' ''a'',
                            Connection ''c''])) ''b''
     = Some \<lparr>u_id = ''b'', u_color = COLORS ! 1\<rparr>
   \<and> COLORS ! 1 \<noteq> COLORS ! (2 mod length COLORS)"
  by (simp add: eval_defs AList.delete_eq) (simp add: COLORS_def)

text \<open>
  C10. An incoming operation whose kind begins with \<^verbatim>\<open>stroke:\<close> or \<^verbatim>\<open>erase:\<close>, whatever
  follows the prefix, and whose payload has no group identity is appended with the drawn
  UUID as its group identity.
\<close>

theorem C10_group_identity_minted:
  assumes "startsWith kind ''stroke:'' \<or> startsWith kind ''erase:''"
    and "\<not> truthy (d_groupId dat)"
  shows "fst (client_op ug uo kind dat s) =
           \<lparr>op_seq = seq s + 1, op_id = uo, op_kind = kind,
            op_data = dat\<lparr>d_groupId := Str ug\<rparr>, op_tombstone = False\<rparr>
         \<and> ops (snd (client_op ug uo kind dat s)) = ops s @ [fst (client_op ug uo kind dat s)]"
  using assms by (simp add: client_op_def mintGroupId_def addOp_fst addOp_ops)

theorem C10_witness:
  "(startsWith ''erase:point'' ''stroke:'' \<or> startsWith ''erase:point'' ''erase:'')
   \<and> \<not> truthy (d_groupId (sample_data (Str ''a'') Undefined))
   \<and> fst (client_op ''g7'' ''o1'' ''erase:point'' (sample_data (Str ''a'') Undefined) init) =
       \<lparr>op_seq = 1, op_id = ''o1'', op_kind = ''erase:point'',
        op_data = sample_data (Str ''a'') (Str ''g7''), op_tombstone = False\<rparr>"
proof -
  have h1: "startsWith ''erase:point'' ''stroke:'' \<or> startsWith ''erase:point'' ''erase:''"
    by (simp add: startsWith_def)
  have h2: "\<not> truthy (d_groupId (sample_data (Str ''a'') Undefined))"
    by (simp add: truthy_def sample_data_def)
  from C10_group_identity_minted [OF h1 h2, of "''g7''" "''o1''" init] h1 h2
  show ?thesis by (simp add: init_def sample_data_def)
qed

end
